theory Spec2Isabelle
  imports Complex_Main "HOL-Library.Word" "HOL-Library.Multiset"
begin

section \<open>Memory access pattern benchmark: the C program as HOL functions\<close>

text \<open>
  The model follows \<^verbatim>\<open>memory_benchmark_fixed.c\<close>. The two global arrays are lists,
  \<^verbatim>\<open>size_t\<close> values are natural numbers (every value the loops compute is below
  \<^verbatim>\<open>ARRAY_SIZE\<close>, see \<open>valid_index_sequence\<close>, so the 64-bit arithmetic is exact; the one
  place where it can wrap, the start of the shuffle loop, is written out), the
  \<^verbatim>\<open>uint32_t\<close> fields and the \<^verbatim>\<open>uint64_t\<close> accumulator are machine words. An access outside
  an array is undefined behaviour in C: it is the result \<open>None\<close> here, so that "the
  program never fails" is a statement that can be proved.
\<close>

subsection \<open>Constants and records\<close>

definition ARRAY_SIZE :: nat where
  "ARRAY_SIZE = 4 * 1024 * 1024"

definition NUM_ITERATIONS :: nat where
  "NUM_ITERATIONS = 10"

definition WARMUP_ITERATIONS :: nat where
  "WARMUP_ITERATIONS = 3"

text \<open>The number of offsets, \<^verbatim>\<open>ARRAY_SIZE / 8\<close>, which the source calls \<^verbatim>\<open>count\<close>.\<close>

abbreviation COUNT :: nat where
  "COUNT \<equiv> ARRAY_SIZE div 8"

record DataStruct =
  a :: "32 word"
  b :: "32 word"
  c :: "32 word"
  d :: "32 word"
  e :: "32 word"
  f :: "32 word"
  g :: "32 word"
  h :: "32 word"

subsection \<open>Array accesses and loops\<close>

text \<open>\<^verbatim>\<open>xs[i]\<close> as an rvalue and \<^verbatim>\<open>xs[i] = v\<close>; \<open>None\<close> outside the array.\<close>

definition read_at :: "'a list \<Rightarrow> nat \<Rightarrow> 'a option" where
  "read_at xs i = (if i < length xs then Some (xs ! i) else None)"

definition write_at :: "'a list \<Rightarrow> nat \<Rightarrow> 'a \<Rightarrow> 'a list option" where
  "write_at xs i v = (if i < length xs then Some (xs[i := v]) else None)"

text \<open>\<^verbatim>\<open>for (i = lo; i < n; i++) body\<close>, the body working on a state and able to fail.\<close>

function for_loop :: "nat \<Rightarrow> nat \<Rightarrow> (nat \<Rightarrow> 's \<Rightarrow> 's option) \<Rightarrow> 's \<Rightarrow> 's option" where
  "for_loop i n body s =
     (if i < n
      then (case body i s of None \<Rightarrow> None | Some s' \<Rightarrow> for_loop (Suc i) n body s')
      else Some s)"
  by pat_completeness auto
termination
  by (relation "measure (\<lambda>(i, n, body, s). n - i)") auto

declare for_loop.simps [simp del]

subsection \<open>The index pattern generators\<close>

text \<open>
  Each generator overwrites the global \<^verbatim>\<open>indices\<close> in place. The first argument is the
  value of the macro \<^verbatim>\<open>ARRAY_SIZE\<close>, the second the array \<^verbatim>\<open>indices\<close> as the call finds it.
\<close>

definition generate_sequential_indices :: "nat \<Rightarrow> nat list \<Rightarrow> nat list option" where
  "generate_sequential_indices N indices =
     for_loop 0 (N div 8) (\<lambda>i ix. write_at ix i (i * 8)) indices"

definition generate_backward_indices :: "nat \<Rightarrow> nat list \<Rightarrow> nat list option" where
  "generate_backward_indices N indices =
     for_loop 0 (N div 8) (\<lambda>i ix. write_at ix i ((N div 8 - 1 - i) * 8)) indices"

definition generate_interleaved_indices :: "nat \<Rightarrow> nat list \<Rightarrow> nat list option" where
  "generate_interleaved_indices N indices =
     (let half = (N div 8) div 2 in
      for_loop 0 half
        (\<lambda>i ix. case write_at ix (2 * i) (i * 8) of
                   None \<Rightarrow> None
                 | Some ix' \<Rightarrow> write_at ix' (2 * i + 1) ((half + i) * 8))
        indices)"

definition generate_bouncing_indices :: "nat \<Rightarrow> nat list \<Rightarrow> nat list option" where
  "generate_bouncing_indices N indices =
     (let count = N div 8 in
      for_loop 0 count
        (\<lambda>i ix. if i mod 2 = 0
                 then write_at ix i ((i div 2) * 8)
                 else write_at ix i ((count - 1 - i div 2) * 8))
        indices)"

text \<open>
  The shuffle. \<^verbatim>\<open>rand()\<close> is the C library's: it is a parameter, a step function on the
  library's hidden state that returns a value in \<open>[0, RAND_MAX]\<close>, here a natural number.
  The loop starts at \<^verbatim>\<open>ARRAY_SIZE / 8 - 1\<close> converted to \<^verbatim>\<open>size_t\<close>, which is
  \<open>2 ^ 64 - 1\<close> when \<^verbatim>\<open>ARRAY_SIZE / 8\<close> is 0.
\<close>

definition shuffle_step :: "('r \<Rightarrow> nat \<times> 'r) \<Rightarrow> nat \<Rightarrow> nat list \<times> 'r \<Rightarrow> (nat list \<times> 'r) option" where
  "shuffle_step rand i s =
     (case s of (ix, r) \<Rightarrow>
        (case rand r of (v, r') \<Rightarrow>
           (let j = v mod (i + 1) in
            case read_at ix i of
              None \<Rightarrow> None
            | Some temp \<Rightarrow>
                (case read_at ix j of
                   None \<Rightarrow> None
                 | Some vj \<Rightarrow>
                     (case write_at ix i vj of
                        None \<Rightarrow> None
                      | Some ix' \<Rightarrow>
                          (case write_at ix' j temp of
                             None \<Rightarrow> None
                           | Some ix'' \<Rightarrow> Some (ix'', r')))))))"

function shuffle_loop :: "('r \<Rightarrow> nat \<times> 'r) \<Rightarrow> nat \<Rightarrow> nat list \<times> 'r \<Rightarrow> (nat list \<times> 'r) option" where
  "shuffle_loop rand i s =
     (if i > 0
      then (case shuffle_step rand i s of
              None \<Rightarrow> None
            | Some s' \<Rightarrow> shuffle_loop rand (i - 1) s')
      else Some s)"
  by pat_completeness auto
termination
  by (relation "measure (\<lambda>(rand, i, s). i)") auto

declare shuffle_loop.simps [simp del]

definition generate_random_indices ::
  "nat \<Rightarrow> ('r \<Rightarrow> nat \<times> 'r) \<Rightarrow> nat list \<times> 'r \<Rightarrow> (nat list \<times> 'r) option" where
  "generate_random_indices N rand s =
     (case s of (indices, r) \<Rightarrow>
        (case generate_sequential_indices N indices of
           None \<Rightarrow> None
         | Some ix \<Rightarrow>
             shuffle_loop rand (if N div 8 = 0 then 2 ^ 64 - 1 else N div 8 - 1) (ix, r)))"

subsection \<open>The timer\<close>

text \<open>
  The two branches of \<^verbatim>\<open>get_time\<close>. Outside Windows the function asks \<^verbatim>\<open>gettimeofday\<close>
  and combines the two fields of the \<^verbatim>\<open>timeval\<close> it gets; on Windows it divides the
  performance counter by its frequency. The host's answers are the arguments; the
  \<^verbatim>\<open>double\<close> arithmetic is taken as exact.
\<close>

record timeval =
  tv_sec :: int
  tv_usec :: int

definition get_time :: "timeval \<Rightarrow> real" where
  "get_time tv = real_of_int (tv_sec tv) + real_of_int (tv_usec tv) * (1 / 10 ^ 6)"

record LARGE_INTEGER =
  QuadPart :: int

definition get_time_win32 :: "LARGE_INTEGER \<Rightarrow> LARGE_INTEGER \<Rightarrow> real" where
  "get_time_win32 frequency counter =
     real_of_int (QuadPart counter) / real_of_int (QuadPart frequency)"

subsection \<open>The benchmark\<close>

text \<open>What the process has written to standard output, one item for each \<^verbatim>\<open>printf\<close>.\<close>

datatype out_item =
    Banner string
  | ArrayLine nat real
  | IterLine nat
  | PatternLine string real
  | CsvRow string real

text \<open>
  The globals \<^verbatim>\<open>arr\<close> and \<^verbatim>\<open>indices\<close>, the hidden state of \<^verbatim>\<open>rand()\<close>, the number of
  calls of \<^verbatim>\<open>get_time\<close> made so far and the output written so far.
\<close>

record 'r state =
  arr :: "DataStruct list"
  indices :: "nat list"
  rng :: 'r
  ticks :: nat
  stdout :: "out_item list"

text \<open>The generators as the function pointers that \<^verbatim>\<open>main\<close> passes: they work on the globals.\<close>

definition on_indices :: "(nat list \<Rightarrow> nat list option) \<Rightarrow> 'r state \<Rightarrow> 'r state option" where
  "on_indices generate st =
     (case generate (indices st) of
        None \<Rightarrow> None
      | Some ix \<Rightarrow> Some (st\<lparr>indices := ix\<rparr>))"

definition on_indices_rng ::
  "(nat list \<times> 'r \<Rightarrow> (nat list \<times> 'r) option) \<Rightarrow> 'r state \<Rightarrow> 'r state option" where
  "on_indices_rng generate st =
     (case generate (indices st, rng st) of
        None \<Rightarrow> None
      | Some (ix, r) \<Rightarrow> Some (st\<lparr>indices := ix, rng := r\<rparr>))"

text \<open>
  One pass of the read loop:
  \<^verbatim>\<open>volatile uint64_t sum = 0; for (j = 0; j < count; j++) sum += arr[indices[j]].a;\<close>
  The source's \<^verbatim>\<open>count\<close> and \<^verbatim>\<open>times\<close> are \<open>cnt\<close> and \<open>tms\<close> where they are
  parameters, HOL having constants of these names.
\<close>

definition read_sum :: "DataStruct list \<Rightarrow> nat list \<Rightarrow> nat \<Rightarrow> 64 word option" where
  "read_sum ar ix cnt =
     for_loop 0 cnt
       (\<lambda>j sum. case read_at ix j of
                   None \<Rightarrow> None
                 | Some k \<Rightarrow>
                     (case read_at ar k of
                        None \<Rightarrow> None
                      | Some x \<Rightarrow> Some (sum + ucast (a x))))
       0"

definition warmup_runs :: "DataStruct list \<Rightarrow> nat list \<Rightarrow> nat \<Rightarrow> unit option" where
  "warmup_runs ar ix cnt =
     for_loop 0 WARMUP_ITERATIONS
       (\<lambda>w u. case read_sum ar ix cnt of None \<Rightarrow> None | Some sm \<Rightarrow> Some u)
       ()"

text \<open>
  The timed runs. \<open>now k\<close> is what the \<open>k\<close>-th call of \<^verbatim>\<open>get_time\<close> of this process
  returns (counted from 0); the loop state is the array \<^verbatim>\<open>times\<close> and the call counter.
\<close>

definition timed_runs ::
  "(nat \<Rightarrow> real) \<Rightarrow> DataStruct list \<Rightarrow> nat list \<Rightarrow> nat \<Rightarrow> real list \<times> nat \<Rightarrow> (real list \<times> nat) option" where
  "timed_runs now ar ix cnt s =
     for_loop 0 NUM_ITERATIONS
       (\<lambda>i s. case s of (tms, tk) \<Rightarrow>
          (let start = now tk in
           case read_sum ar ix cnt of
             None \<Rightarrow> None
           | Some sm \<Rightarrow>
               (let stop = now (tk + 1) in
                case write_at tms i ((stop - start) * 1000) of
                  None \<Rightarrow> None
                | Some tms' \<Rightarrow> Some (tms', tk + 2))))
       s"

text \<open>
  The bubble sort of lines 110 to 118, for an array of \<open>n\<close> elements, and the element
  the function then picks.
\<close>

definition bubble_pass :: "nat \<Rightarrow> 'a::linorder list \<Rightarrow> 'a list option" where
  "bubble_pass m tms =
     for_loop 0 m
       (\<lambda>j ts. case read_at ts j of
                  None \<Rightarrow> None
                | Some x \<Rightarrow>
                    (case read_at ts (j + 1) of
                       None \<Rightarrow> None
                     | Some y \<Rightarrow>
                         if x > y
                         then (case write_at ts j y of
                                 None \<Rightarrow> None
                               | Some ts' \<Rightarrow> write_at ts' (j + 1) x)
                         else Some ts))
       tms"

definition bubble_sort :: "nat \<Rightarrow> 'a::linorder list \<Rightarrow> 'a list option" where
  "bubble_sort n tms = for_loop 0 (n - 1) (\<lambda>i ts. bubble_pass (n - i - 1) ts) tms"

definition median_time :: "'a::linorder list \<Rightarrow> 'a option" where
  "median_time tms =
     (case bubble_sort NUM_ITERATIONS tms of
        None \<Rightarrow> None
      | Some ts \<Rightarrow> read_at ts (NUM_ITERATIONS div 2))"

text \<open>
  \<^verbatim>\<open>benchmark_pattern\<close>. The local array \<^verbatim>\<open>times\<close> starts with unspecified content in C;
  every element is written before the sort reads it, and the model starts it with zeros.
\<close>

definition benchmark_pattern ::
  "nat \<Rightarrow> (nat \<Rightarrow> real) \<Rightarrow> ('r state \<Rightarrow> 'r state option) \<Rightarrow> string \<Rightarrow> 'r state
     \<Rightarrow> (real \<times> 'r state) option" where
  "benchmark_pattern N now generate_func pattern_name st =
     (case generate_func st of
        None \<Rightarrow> None
      | Some st1 \<Rightarrow>
          (let count = N div 8 in
           case warmup_runs (arr st1) (indices st1) count of
             None \<Rightarrow> None
           | Some u \<Rightarrow>
               (case timed_runs now (arr st1) (indices st1) count
                       (replicate NUM_ITERATIONS 0, ticks st1) of
                  None \<Rightarrow> None
                | Some (tms, tk) \<Rightarrow>
                    (case median_time tms of
                       None \<Rightarrow> None
                     | Some m \<Rightarrow>
                         Some (m, st1\<lparr>ticks := tk,
                                      stdout := stdout st1 @ [PatternLine pattern_name m]\<rparr>)))))"

subsection \<open>The main function\<close>

text \<open>One record of the buffer: eight calls of \<^verbatim>\<open>rand()\<close>, each converted to \<^verbatim>\<open>uint32_t\<close>.\<close>

definition init_record :: "('r \<Rightarrow> nat \<times> 'r) \<Rightarrow> 'r \<Rightarrow> DataStruct \<times> 'r" where
  "init_record rand r0 =
     (case rand r0 of (va, r1) \<Rightarrow>
      case rand r1 of (vb, r2) \<Rightarrow>
      case rand r2 of (vc, r3) \<Rightarrow>
      case rand r3 of (vd, r4) \<Rightarrow>
      case rand r4 of (ve, r5) \<Rightarrow>
      case rand r5 of (vf, r6) \<Rightarrow>
      case rand r6 of (vg, r7) \<Rightarrow>
      case rand r7 of (vh, r8) \<Rightarrow>
        (\<lparr>a = of_nat va, b = of_nat vb, c = of_nat vc, d = of_nat vd,
          e = of_nat ve, f = of_nat vf, g = of_nat vg, h = of_nat vh\<rparr>, r8))"

definition init_array ::
  "nat \<Rightarrow> ('r \<Rightarrow> nat \<times> 'r) \<Rightarrow> DataStruct list \<times> 'r \<Rightarrow> (DataStruct list \<times> 'r) option" where
  "init_array N rand s =
     for_loop 0 N
       (\<lambda>i s. case s of (ar, r) \<Rightarrow>
          (case init_record rand r of (x, r') \<Rightarrow>
             (case write_at ar i x of
                None \<Rightarrow> None
              | Some ar' \<Rightarrow> Some (ar', r'))))
       s"

text \<open>
  What the process leaves behind: its exit status, the lines it wrote to standard output
  and to standard error, and the program state as it is before the two calls of
  \<^verbatim>\<open>free\<close> (\<open>None\<close> when the process ended before it had both arrays, so that no
  generator, no read loop and no timer call has run).
\<close>

record 'r process_result =
  exit_status :: int
  written_stdout :: "out_item list"
  written_stderr :: "string list"
  final :: "'r state option"

text \<open>
  Lines 135 to 170 of \<^verbatim>\<open>main\<close>, with both arrays allocated. \<^verbatim>\<open>srand\<close> is the C
  library's and a parameter like \<^verbatim>\<open>rand\<close>.
\<close>

definition run_benchmarks ::
  "nat \<Rightarrow> (nat \<Rightarrow> 'r) \<Rightarrow> ('r \<Rightarrow> nat \<times> 'r) \<Rightarrow> (nat \<Rightarrow> real) \<Rightarrow> DataStruct list \<Rightarrow> nat list
     \<Rightarrow> 'r state option" where
  "run_benchmarks N srand rand now ar0 ix0 =
     (case init_array N rand (ar0, srand 12345) of
        None \<Rightarrow> None
      | Some (ar, r) \<Rightarrow>
          (let st0 = \<lparr>arr = ar, indices = ix0, rng = srand 42, ticks = 0,
                      stdout = [Banner ''Memory Access Pattern Benchmark (C - Windows)'',
                                ArrayLine N (real (N * 32) / (1024 * 1024)),
                                IterLine NUM_ITERATIONS]\<rparr>
           in
           case benchmark_pattern N now (on_indices (generate_sequential_indices N))
                  ''Sequential'' st0 of
             None \<Rightarrow> None
           | Some (sequential, st1) \<Rightarrow>
           case benchmark_pattern N now (on_indices (generate_backward_indices N))
                  ''Backward'' st1 of
             None \<Rightarrow> None
           | Some (backward, st2) \<Rightarrow>
           case benchmark_pattern N now (on_indices (generate_interleaved_indices N))
                  ''Interleaved'' st2 of
             None \<Rightarrow> None
           | Some (interleaved, st3) \<Rightarrow>
           case benchmark_pattern N now (on_indices (generate_bouncing_indices N))
                  ''Bouncing'' st3 of
             None \<Rightarrow> None
           | Some (bouncing, st4) \<Rightarrow>
           case benchmark_pattern N now (on_indices_rng (generate_random_indices N rand))
                  ''Random'' st4 of
             None \<Rightarrow> None
           | Some (random, st5) \<Rightarrow>
               Some (st5\<lparr>stdout := stdout st5 @
                       [Banner ''CSV_OUTPUT:'', Banner ''Pattern,Time_ms'',
                        CsvRow ''Sequential'' sequential, CsvRow ''Backward'' backward,
                        CsvRow ''Interleaved'' interleaved, CsvRow ''Bouncing'' bouncing,
                        CsvRow ''Random'' random]\<rparr>)))"

text \<open>
  \<^verbatim>\<open>main\<close>. The two results of \<^verbatim>\<open>malloc\<close> are arguments: \<open>None\<close> for a null pointer,
  otherwise the fresh block with whatever content it has.
\<close>

definition main ::
  "nat \<Rightarrow> (nat \<Rightarrow> 'r) \<Rightarrow> ('r \<Rightarrow> nat \<times> 'r) \<Rightarrow> (nat \<Rightarrow> real)
     \<Rightarrow> DataStruct list option \<Rightarrow> nat list option \<Rightarrow> 'r process_result option" where
  "main N srand rand now malloc_arr malloc_indices =
     (case malloc_arr of
        None \<Rightarrow>
          Some \<lparr>exit_status = 1, written_stdout = [],
                written_stderr = [''Memory allocation failed''], final = None\<rparr>
      | Some ar0 \<Rightarrow>
          (case malloc_indices of
             None \<Rightarrow>
               Some \<lparr>exit_status = 1, written_stdout = [],
                     written_stderr = [''Memory allocation failed''], final = None\<rparr>
           | Some ix0 \<Rightarrow>
               (case run_benchmarks N srand rand now ar0 ix0 of
                  None \<Rightarrow> None
                | Some st \<Rightarrow>
                    Some \<lparr>exit_status = 0, written_stdout = stdout st,
                          written_stderr = [], final = Some st\<rparr>)))"

subsection \<open>Properties of sequences and the shuffle as the specification words it\<close>

text \<open>
  A valid index sequence for a buffer of \<open>N\<close> records: \<open>N / 8\<close> offsets, a permutation of
  \<open>0, 8, 16, ...\<close>, all distinct, each a multiple of 8 and an index into the buffer.
\<close>

definition valid_index_sequence :: "nat \<Rightarrow> nat list \<Rightarrow> bool" where
  "valid_index_sequence N xs \<longleftrightarrow>
     length xs = N div 8 \<and>
     mset xs = mset (map (\<lambda>i. i * 8) [0..<N div 8]) \<and>
     distinct xs \<and>
     (\<forall>v \<in> set xs. 8 dvd v \<and> v < N)"

text \<open>
  The ten samples that the timed phase of \<^verbatim>\<open>benchmark_pattern\<close> stores when it starts
  with \<open>tk\<close> timer calls already made: run \<open>i\<close> reads the timer at calls \<open>tk + 2i\<close> and
  \<open>tk + 2i + 1\<close> and stores the difference in milliseconds.
\<close>

definition timing_samples :: "(nat \<Rightarrow> real) \<Rightarrow> nat \<Rightarrow> real list" where
  "timing_samples now tk =
     map (\<lambda>i. (now (tk + 2 * i + 1) - now (tk + 2 * i)) * 1000) [0..<NUM_ITERATIONS]"

text \<open>
  A timer for evaluating the benchmark on given samples: run \<open>i\<close> starts at \<open>i\<close>
  hundredths of a second and takes \<open>ds ! i\<close> milliseconds.
\<close>

definition sample_clock :: "real list \<Rightarrow> nat \<Rightarrow> real" where
  "sample_clock ds k =
     real (10 * (k div 2)) / 1000 +
     (if odd k \<and> k div 2 < length ds then ds ! (k div 2) / 1000 else 0)"

text \<open>
  The Fisher-Yates shuffle in the words of the specification: for \<open>i\<close> from \<open>L - 1\<close> down
  to 1, pick \<open>j\<close> in \<open>[0, i]\<close> with the generator and swap positions \<open>i\<close> and \<open>j\<close>.
\<close>

fun fisher_yates :: "('r \<Rightarrow> nat \<times> 'r) \<Rightarrow> nat \<Rightarrow> 'a list \<times> 'r \<Rightarrow> 'a list \<times> 'r" where
  "fisher_yates rand 0 s = s"
| "fisher_yates rand (Suc k) s =
     (case s of (xs, r) \<Rightarrow>
        (case rand r of (v, r') \<Rightarrow>
           (let i = Suc k; j = v mod (i + 1)
            in fisher_yates rand k (xs[i := xs ! j, j := xs ! i], r'))))"

text \<open>
  A generator for evaluating the definitions on small inputs: the sample implementation
  of \<^verbatim>\<open>rand\<close> and \<^verbatim>\<open>srand\<close> in the C standard.
\<close>

definition rand_c :: "nat \<Rightarrow> nat \<times> nat" where
  "rand_c x = (let x' = (x * 1103515245 + 12345) mod 2 ^ 32
                  in ((x' div 65536) mod 32768, x'))"

definition srand_c :: "nat \<Rightarrow> nat" where
  "srand_c seed = seed"

section \<open>Loop rules\<close>

lemma for_loop_invariant:
  assumes "I i s" and "i \<le> n"
    and "\<And>k t. i \<le> k \<Longrightarrow> k < n \<Longrightarrow> I k t \<Longrightarrow> \<exists>t'. body k t = Some t' \<and> I (Suc k) t'"
  shows "\<exists>s'. for_loop i n body s = Some s' \<and> I n s'"
  using assms
proof (induction "n - i" arbitrary: i s)
  case 0
  then have "i = n" by simp
  with 0 show ?case by (simp add: for_loop.simps)
next
  case (Suc m)
  then have lt: "i < n" by simp
  from Suc.prems(3) [OF le_refl lt Suc.prems(1)]
  obtain t where t: "body i s = Some t" "I (Suc i) t" by blast
  have "\<exists>s'. for_loop (Suc i) n body t = Some s' \<and> I n s'"
  proof (rule Suc.hyps(1))
    show "m = n - Suc i" using Suc.hyps(2) by simp
    show "I (Suc i) t" by (rule t(2))
    show "Suc i \<le> n" using lt by simp
    show "\<exists>t'. body k u = Some t' \<and> I (Suc k) t'" if "Suc i \<le> k" "k < n" "I k u" for k u
      using Suc.prems(3) [of k u] that by simp
  qed
  with t(1) lt show ?case by (subst for_loop.simps) simp
qed

section \<open>What the four fixed generators write\<close>

lemma sequential_result:
  assumes "length ix0 = N div 8"
  shows "generate_sequential_indices N ix0 = Some (map (\<lambda>i. i * 8) [0..<N div 8])"
proof -
  let ?I = "\<lambda>k ix. length ix = N div 8 \<and> (\<forall>m<k. ix ! m = m * 8)"
  have "\<exists>s'. for_loop 0 (N div 8) (\<lambda>i ix. write_at ix i (i * 8)) ix0 = Some s' \<and> ?I (N div 8) s'"
  proof (rule for_loop_invariant [where I = ?I])
    show "?I 0 ix0" using assms by simp
    show "0 \<le> N div 8" by simp
    show "\<exists>t'. write_at t k (k * 8) = Some t' \<and> ?I (Suc k) t'" if "k < N div 8" "?I k t" for k t
      using that by (auto simp: write_at_def nth_list_update less_Suc_eq)
  qed
  then obtain s' where s: "generate_sequential_indices N ix0 = Some s'"
    "length s' = N div 8" "\<forall>m<N div 8. s' ! m = m * 8"
    by (auto simp: generate_sequential_indices_def)
  have "s' = map (\<lambda>i. i * 8) [0..<N div 8]"
    using s(2,3) by (intro nth_equalityI) auto
  with s(1) show ?thesis by simp
qed

lemma backward_result:
  assumes "length ix0 = N div 8"
  shows "generate_backward_indices N ix0 = Some (map (\<lambda>i. (N div 8 - 1 - i) * 8) [0..<N div 8])"
proof -
  let ?I = "\<lambda>k ix. length ix = N div 8 \<and> (\<forall>m<k. ix ! m = (N div 8 - 1 - m) * 8)"
  have "\<exists>s'. for_loop 0 (N div 8) (\<lambda>i ix. write_at ix i ((N div 8 - 1 - i) * 8)) ix0 = Some s' \<and> ?I (N div 8) s'"
  proof (rule for_loop_invariant [where I = ?I])
    show "?I 0 ix0" using assms by simp
    show "0 \<le> N div 8" by simp
    show "\<exists>t'. write_at t k ((N div 8 - 1 - k) * 8) = Some t' \<and> ?I (Suc k) t'" if "k < N div 8" "?I k t" for k t
      using that by (auto simp: write_at_def nth_list_update less_Suc_eq)
  qed
  then obtain s' where s: "generate_backward_indices N ix0 = Some s'"
    "length s' = N div 8" "\<forall>m<N div 8. s' ! m = (N div 8 - 1 - m) * 8"
    by (auto simp: generate_backward_indices_def)
  have "s' = map (\<lambda>i. (N div 8 - 1 - i) * 8) [0..<N div 8]"
    using s(2,3) by (intro nth_equalityI) auto
  with s(1) show ?thesis by simp
qed

lemma bouncing_result:
  assumes "length ix0 = N div 8"
  shows "generate_bouncing_indices N ix0 =
     Some (map (\<lambda>i. if i mod 2 = 0 then (i div 2) * 8 else (N div 8 - 1 - i div 2) * 8) [0..<N div 8])"
proof -
  let ?v = "\<lambda>i. if i mod 2 = 0 then (i div 2) * 8 else (N div 8 - 1 - i div 2) * 8"
  let ?body = "\<lambda>i ix. if i mod 2 = 0 then write_at ix i ((i div 2) * 8)
                 else write_at ix i ((N div 8 - 1 - i div 2) * 8)"
  let ?I = "\<lambda>k ix. length ix = N div 8 \<and> (\<forall>m<k. ix ! m = ?v m)"
  have "\<exists>s'. for_loop 0 (N div 8) ?body ix0 = Some s' \<and> ?I (N div 8) s'"
  proof (rule for_loop_invariant [where I = ?I])
    show "?I 0 ix0" using assms by simp
    show "0 \<le> N div 8" by simp
    show "\<exists>t'. ?body k t = Some t' \<and> ?I (Suc k) t'" if "k < N div 8" "?I k t" for k t
      using that by (auto simp: write_at_def nth_list_update less_Suc_eq)
  qed
  then obtain s' where s: "generate_bouncing_indices N ix0 = Some s'"
    "length s' = N div 8" "\<forall>m<N div 8. s' ! m = ?v m"
    by (auto simp: generate_bouncing_indices_def Let_def)
  have "s' = map ?v [0..<N div 8]"
    using s(2,3) by (intro nth_equalityI) auto
  with s(1) show ?thesis by simp
qed

lemma interleaved_result:
  assumes "length ix0 = N div 8" and "even (N div 8)"
  shows "generate_interleaved_indices N ix0 =
     Some (map (\<lambda>p. if even p then (p div 2) * 8 else (N div 8 div 2 + p div 2) * 8) [0..<N div 8])"
proof -
  let ?half = "N div 8 div 2"
  let ?v = "\<lambda>p. if even p then (p div 2) * 8 else (?half + p div 2) * 8"
  let ?body = "\<lambda>i ix. case write_at ix (2 * i) (i * 8) of
                   None \<Rightarrow> None
                 | Some ix' \<Rightarrow> write_at ix' (2 * i + 1) ((?half + i) * 8)"
  let ?I = "\<lambda>k ix. length ix = N div 8 \<and> (\<forall>p<2 * k. ix ! p = ?v p)"
  have "\<exists>s'. for_loop 0 ?half ?body ix0 = Some s' \<and> ?I ?half s'"
  proof (rule for_loop_invariant [where I = ?I])
    show "?I 0 ix0" using assms by simp
    show "0 \<le> ?half" by simp
    show "\<exists>t'. ?body k t = Some t' \<and> ?I (Suc k) t'" if "k < ?half" "?I k t" for k t
    proof -
      have len: "2 * k + 1 < length t" using that by auto
      have "?body k t = Some (t[2 * k := k * 8, 2 * k + 1 := (?half + k) * 8])"
        using len by (simp add: write_at_def)
      moreover have "?I (Suc k) (t[2 * k := k * 8, 2 * k + 1 := (?half + k) * 8])"
      proof (intro conjI allI impI)
        show "length (t[2 * k := k * 8, 2 * k + 1 := (?half + k) * 8]) = N div 8"
          using that by simp
      next
        fix p :: nat assume p: "p < 2 * Suc k"
        then have "p < 2 * k \<or> p = 2 * k \<or> p = 2 * k + 1" by arith
        then consider "p < 2 * k" | "p = 2 * k" | "p = 2 * k + 1" by blast
        then show "t[2 * k := k * 8, 2 * k + 1 := (?half + k) * 8] ! p = ?v p"
        proof cases
          case 1 then show ?thesis using that(2) by (simp add: nth_list_update)
        next
          case 2 then show ?thesis using len by (simp add: nth_list_update)
        next
          case 3 then show ?thesis using len by (simp add: nth_list_update)
        qed
      qed
      ultimately show ?thesis by blast
    qed
  qed
  then obtain s' where s: "generate_interleaved_indices N ix0 = Some s'"
    "length s' = N div 8" "\<forall>p<2 * ?half. s' ! p = ?v p"
    by (auto simp: generate_interleaved_indices_def Let_def)
  have "2 * ?half = N div 8" using assms(2) by simp
  with s(3) have "\<forall>p<N div 8. s' ! p = ?v p" by simp
  with s(2) have "s' = map ?v [0..<N div 8]"
    by (intro nth_equalityI) auto
  with s(1) show ?thesis by simp
qed

section \<open>Permutations of the stride offsets\<close>

lemma distinct_stride: "distinct (map (\<lambda>i. i * 8) [0..<L :: nat])"
  by (simp add: distinct_map inj_on_def)

lemma valid_index_sequenceI:
  assumes "mset xs = mset (map (\<lambda>i. i * 8) [0..<N div 8])"
  shows "valid_index_sequence N xs"
proof -
  have len: "length xs = N div 8"
    using mset_eq_length [OF assms] by simp
  have dist: "distinct xs"
    using mset_eq_imp_distinct_iff [OF assms] distinct_stride by blast
  have set: "set xs = (\<lambda>i. i * 8) ` {0..<N div 8}"
    using mset_eq_setD [OF assms] by simp
  have "8 dvd v \<and> v < N" if "v \<in> set xs" for v
  proof -
    from that set obtain i where i: "i < N div 8" "v = i * 8" by auto
    have "8 * (N div 8) \<le> N" by simp
    with i show ?thesis by simp
  qed
  with len dist assms show ?thesis by (simp add: valid_index_sequence_def)
qed

lemma mset_permuted_stride:
  assumes inj: "inj_on p {0..<L}" and sub: "p ` {0..<L} \<subseteq> {0..<L}"
  shows "mset (map (\<lambda>i. p i * 8) [0..<L]) = mset (map (\<lambda>i. i * 8) [0..<L :: nat])"
proof -
  have img: "p ` {0..<L} = {0..<L}"
    using endo_inj_surj [OF _ sub inj] by simp
  have "distinct (map p [0..<L])"
    using inj by (simp add: distinct_map)
  moreover have "set (map p [0..<L]) = set [0..<L]"
    using img by simp
  ultimately have "mset (map p [0..<L]) = mset [0..<L]"
    using set_eq_iff_mset_eq_distinct [of "map p [0..<L]" "[0..<L]"] by simp
  then have "image_mset (\<lambda>i. i * 8) (mset (map p [0..<L])) = image_mset (\<lambda>i. i * 8) (mset [0..<L])"
    by simp
  then show ?thesis by (simp add: image_mset.compositionality comp_def)
qed

lemma backward_is_rev:
  "map (\<lambda>i. (L - 1 - i) * 8) [0..<L] = rev (map (\<lambda>i. i * 8) [0..<L :: nat])"
  by (intro nth_equalityI) (auto simp: rev_nth)

lemma mset_backward:
  "mset (map (\<lambda>i. (L - 1 - i) * 8) [0..<L]) = mset (map (\<lambda>i. i * 8) [0..<L :: nat])"
  by (simp only: backward_is_rev mset_rev)

lemma mset_bouncing:
  "mset (map (\<lambda>i. if i mod 2 = 0 then (i div 2) * 8 else (L - 1 - i div 2) * 8) [0..<L])
     = mset (map (\<lambda>i. i * 8) [0..<L :: nat])"
proof -
  let ?p = "\<lambda>i. if i mod 2 = 0 then i div 2 else L - 1 - i div 2"
  have inj: "inj_on ?p {0..<L}"
  proof (rule inj_onI)
    fix x y assume "x \<in> {0..<L}" "y \<in> {0..<L}" "?p x = ?p y"
    then have xy: "x < L" "y < L" and eq: "?p x = ?p y" by simp_all
    define u where "u = x div 2"
    define w where "w = y div 2"
    have x: "x = 2 * u + x mod 2" and y: "y = 2 * w + y mod 2"
      by (simp_all add: u_def w_def)
    have m: "x mod 2 = 0 \<or> x mod 2 = 1" "y mod 2 = 0 \<or> y mod 2 = 1" by arith+
    from eq have eq': "(if x mod 2 = 0 then u else L - 1 - u) = (if y mod 2 = 0 then w else L - 1 - w)"
      by (simp only: u_def w_def)
    show "x = y"
    proof (cases "x mod 2 = 0")
      case xe: True
      show ?thesis
      proof (cases "y mod 2 = 0")
        case True
        with xe eq' x y show ?thesis by simp
      next
        case False
        with m have "y mod 2 = 1" by simp
        with xe eq' x y xy show ?thesis by (simp split: if_splits; linarith)
      qed
    next
      case xo: False
      with m have x1: "x mod 2 = 1" by simp
      show ?thesis
      proof (cases "y mod 2 = 0")
        case True
        with x1 eq' x y xy show ?thesis by (simp split: if_splits; linarith)
      next
        case False
        with m have "y mod 2 = 1" by simp
        with x1 eq' x y xy show ?thesis by (simp split: if_splits; linarith)
      qed
    qed
  qed
  have sub: "?p ` {0..<L} \<subseteq> {0..<L}" by auto
  have "(\<lambda>i. if i mod 2 = 0 then (i div 2) * 8 else (L - 1 - i div 2) * 8) = (\<lambda>i. ?p i * 8)"
    by auto
  then show ?thesis using mset_permuted_stride [OF inj sub] by (simp only:)
qed

lemma mset_interleaved:
  assumes "even L"
  shows "mset (map (\<lambda>p. if even p then (p div 2) * 8 else (L div 2 + p div 2) * 8) [0..<L])
     = mset (map (\<lambda>i. i * 8) [0..<L :: nat])"
proof -
  let ?p = "\<lambda>p. if even p then p div 2 else L div 2 + p div 2"
  have inj: "inj_on ?p {0..<L}"
  proof (rule inj_onI)
    fix x y assume "x \<in> {0..<L}" "y \<in> {0..<L}" "?p x = ?p y"
    then show "x = y" using assms by (auto split: if_splits elim!: evenE oddE)
  qed
  have sub: "?p ` {0..<L} \<subseteq> {0..<L}" using assms by (auto elim!: evenE oddE)
  have "(\<lambda>p. if even p then (p div 2) * 8 else (L div 2 + p div 2) * 8) = (\<lambda>i. ?p i * 8)"
    by auto
  then show ?thesis using mset_permuted_stride [OF inj sub] by (simp only:)
qed

lemma shuffle_step_swap:
  assumes "i < length ix" and "rand r = (v, r')"
  shows "shuffle_step rand i (ix, r) = Some (ix[i := ix ! (v mod (i + 1)), v mod (i + 1) := ix ! i], r')"
proof -
  have "v mod (i + 1) < length ix"
    using assms(1) by (metis Suc_eq_plus1 less_Suc_eq_le mod_less_divisor order_le_less_trans zero_less_Suc)
  with assms show ?thesis
    by (simp add: shuffle_step_def read_at_def write_at_def Let_def)
qed

lemma shuffle_loop_fisher_yates:
  "i < length ix \<Longrightarrow> shuffle_loop rand i (ix, r) = Some (fisher_yates rand i (ix, r))"
proof (induction i arbitrary: ix r)
  case 0
  show ?case by (simp add: shuffle_loop.simps)
next
  case (Suc k)
  obtain v r' where vr: "rand r = (v, r')" by (cases "rand r")
  let ?ix = "ix[Suc k := ix ! (v mod (Suc k + 1)), v mod (Suc k + 1) := ix ! Suc k]"
  have step: "shuffle_step rand (Suc k) (ix, r) = Some (?ix, r')"
    using Suc.prems vr by (rule shuffle_step_swap)
  have "k < length ?ix" using Suc.prems by simp
  from Suc.IH [OF this] step vr show ?case
    by (subst shuffle_loop.simps) (simp add: Let_def)
qed

lemma fisher_yates_mset:
  "i < length xs \<Longrightarrow> mset (fst (fisher_yates rand i (xs, r))) = mset xs"
proof (induction i arbitrary: xs r)
  case 0
  show ?case by simp
next
  case (Suc k)
  obtain v r' where vr: "rand r = (v, r')" by (cases "rand r")
  let ?j = "v mod (Suc k + 1)"
  have j: "?j < length xs"
    using Suc.prems by (metis Suc_eq_plus1 less_Suc_eq_le mod_less_divisor order_le_less_trans zero_less_Suc)
  have "mset (xs[Suc k := xs ! ?j, ?j := xs ! Suc k]) = mset xs"
    using mset_swap [OF j Suc.prems] .
  moreover have "k < length (xs[Suc k := xs ! ?j, ?j := xs ! Suc k])"
    using Suc.prems by simp
  ultimately show ?case
    using Suc.IH [of "xs[Suc k := xs ! ?j, ?j := xs ! Suc k]" r'] vr by (simp add: Let_def)
qed

lemma random_result:
  assumes "length ix0 = N div 8" and "0 < N div 8"
  shows "generate_random_indices N rand (ix0, r) =
           Some (fisher_yates rand (N div 8 - 1) (map (\<lambda>i. i * 8) [0..<N div 8], r))"
proof -
  have "N div 8 - 1 < length (map (\<lambda>i. i * 8) [0..<N div 8])"
    using assms(2) by simp
  from shuffle_loop_fisher_yates [OF this] assms show ?thesis
    by (simp add: generate_random_indices_def sequential_result)
qed

lemma COUNT_value: "COUNT = 524288"
  by (simp add: ARRAY_SIZE_def)

lemma stride_strict: "sorted_wrt (<) (map (\<lambda>i. i * 8) [0..<n :: nat])"
  by (simp add: sorted_wrt_iff_nth_less)

lemma backward_strict: "sorted_wrt (>) (map (\<lambda>i. (n - 1 - i) * 8) [0..<n :: nat])"
  by (auto simp: sorted_wrt_iff_nth_less)

section \<open>The shape of the interleaved and the bouncing sequence\<close>

lemma interleaved_shape:
  fixes L :: nat
  assumes "even L"
  defines "il \<equiv> map (\<lambda>p. if even p then (p div 2) * 8 else (L div 2 + p div 2) * 8) [0..<L]"
  shows "length il = L"
    and "\<forall>i<L div 2. il ! (2 * i) = i * 8 \<and> il ! (2 * i + 1) = (L div 2 + i) * 8"
    and "\<forall>i<L div 2. il ! (2 * i) < (L div 2) * 8 \<and> (L div 2) * 8 \<le> il ! (2 * i + 1)"
    and "\<forall>i j. i < j \<and> j < L div 2 \<longrightarrow>
           il ! (2 * i) < il ! (2 * j) \<and> il ! (2 * i + 1) < il ! (2 * j + 1)"
    and "\<forall>i<L div 2. il ! (2 * i + 1) < L * 8"
proof -
  show "length il = L" by (simp add: il_def)
  have idx: "2 * i < L \<and> 2 * i + 1 < L" if "i < L div 2" for i
    using that assms(1) by (auto elim!: evenE)
  have ev: "il ! (2 * i) = i * 8" and od: "il ! (2 * i + 1) = (L div 2 + i) * 8"
    if "i < L div 2" for i
    using idx [OF that] by (simp_all add: il_def)
  show "\<forall>i<L div 2. il ! (2 * i) = i * 8 \<and> il ! (2 * i + 1) = (L div 2 + i) * 8"
    using ev od by blast
  show "\<forall>i<L div 2. il ! (2 * i) < (L div 2) * 8 \<and> (L div 2) * 8 \<le> il ! (2 * i + 1)"
    using ev od by simp
  show "\<forall>i j. i < j \<and> j < L div 2 \<longrightarrow>
           il ! (2 * i) < il ! (2 * j) \<and> il ! (2 * i + 1) < il ! (2 * j + 1)"
  proof (intro allI impI)
    fix i j assume "i < j \<and> j < L div 2"
    then have "i < L div 2" "j < L div 2" "i < j" by simp_all
    then show "il ! (2 * i) < il ! (2 * j) \<and> il ! (2 * i + 1) < il ! (2 * j + 1)"
      using ev [of i] ev [of j] od [of i] od [of j] by simp
  qed
  show "\<forall>i<L div 2. il ! (2 * i + 1) < L * 8"
  proof (intro allI impI)
    fix i assume i: "i < L div 2"
    have "L div 2 + i < L" using i assms(1) by (auto elim!: evenE)
    then show "il ! (2 * i + 1) < L * 8" using od [OF i] by simp
  qed
qed

lemma bouncing_shape:
  fixes L :: nat
  defines "bo \<equiv> map (\<lambda>i. if i mod 2 = 0 then (i div 2) * 8 else (L - 1 - i div 2) * 8) [0..<L]"
  shows "length bo = L"
    and "\<forall>i<L. bo ! i = (if even i then (i div 2) * 8 else (L - 1 - i div 2) * 8)"
    and "\<forall>i j. even i \<and> even j \<and> i < j \<and> j < L \<longrightarrow> bo ! i < bo ! j"
    and "\<forall>i j. odd i \<and> odd j \<and> i < j \<and> j < L \<longrightarrow> bo ! j < bo ! i"
    and "\<forall>i j. even i \<and> odd j \<and> i < L \<and> j < L \<longrightarrow> bo ! i < bo ! j"
proof -
  show "length bo = L" by (simp add: bo_def)
  have nth: "bo ! i = (if even i then (i div 2) * 8 else (L - 1 - i div 2) * 8)" if "i < L" for i
    using that by (simp add: bo_def even_iff_mod_2_eq_zero)
  show "\<forall>i<L. bo ! i = (if even i then (i div 2) * 8 else (L - 1 - i div 2) * 8)"
    using nth by blast
  show "\<forall>i j. even i \<and> even j \<and> i < j \<and> j < L \<longrightarrow> bo ! i < bo ! j"
  proof (intro allI impI)
    fix i j assume A: "even i \<and> even j \<and> i < j \<and> j < L"
    then have "i < L" "j < L" by simp_all
    moreover have "i div 2 < j div 2" using A by (auto elim!: evenE)
    ultimately show "bo ! i < bo ! j" using A by (simp add: nth)
  qed
  show "\<forall>i j. odd i \<and> odd j \<and> i < j \<and> j < L \<longrightarrow> bo ! j < bo ! i"
  proof (intro allI impI)
    fix i j assume A: "odd i \<and> odd j \<and> i < j \<and> j < L"
    then have iL: "i < L" "j < L" by simp_all
    have "i div 2 < j div 2" using A by (auto elim!: oddE)
    moreover have "j div 2 \<le> L - 1" using A by arith
    ultimately have "L - 1 - j div 2 < L - 1 - i div 2" by simp
    then show "bo ! j < bo ! i" using A iL by (simp add: nth)
  qed
  show "\<forall>i j. even i \<and> odd j \<and> i < L \<and> j < L \<longrightarrow> bo ! i < bo ! j"
  proof (intro allI impI)
    fix i j assume A: "even i \<and> odd j \<and> i < L \<and> j < L"
    then obtain u w where uw: "i = 2 * u" "j = 2 * w + 1" by (auto elim!: evenE oddE)
    with A have "u + w + 1 < L" by simp
    then have "u < L - 1 - w" by simp
    then show "bo ! i < bo ! j" using A uw by (simp add: nth)
  qed
qed

lemma COUNT_even: "even COUNT"
  by (simp add: ARRAY_SIZE_def)

lemma COUNT_times_8: "COUNT * 8 = ARRAY_SIZE"
  by (simp add: ARRAY_SIZE_def)

lemma valid_index_sequence_mem:
  assumes "valid_index_sequence N xs" and "i < N div 8"
  shows "i * 8 \<in> set xs"
proof -
  from assms(1) have "mset xs = mset (map (\<lambda>i. i * 8) [0..<N div 8])"
    by (simp add: valid_index_sequence_def)
  then have "set xs = set (map (\<lambda>i. i * 8) [0..<N div 8])"
    by (rule mset_eq_setD)
  then have "set xs = (\<lambda>i. i * 8) ` {0..<N div 8}" by simp
  with assms(2) show ?thesis by simp
qed

section \<open>The bubble sort and the median\<close>

lemma bubble_step:
  fixes t :: "'a::linorder list"
  assumes j: "j < m" and m: "m < length t"
  shows "(case read_at t j of
            None \<Rightarrow> None
          | Some x \<Rightarrow>
              (case read_at t (j + 1) of
                 None \<Rightarrow> None
               | Some y \<Rightarrow>
                   if x > y
                   then (case write_at t j y of
                           None \<Rightarrow> None
                         | Some ts' \<Rightarrow> write_at ts' (j + 1) x)
                   else Some t))
         = Some (if t ! j > t ! Suc j then t[j := t ! Suc j, Suc j := t ! j] else t)"
  using assms by (simp add: read_at_def write_at_def)

lemma swap_adjacent_prefix:
  assumes "j < m" and "m < length t"
  shows "mset (take (Suc m) (t[j := t ! Suc j, Suc j := t ! j])) = mset (take (Suc m) t)"
    and "drop (Suc m) (t[j := t ! Suc j, Suc j := t ! j]) = drop (Suc m) t"
proof -
  let ?p = "take (Suc m) t"
  have len: "j < length ?p" "Suc j < length ?p" using assms by simp_all
  have "take (Suc m) (t[j := t ! Suc j, Suc j := t ! j]) = ?p[j := ?p ! Suc j, Suc j := ?p ! j]"
    using assms by (simp add: take_update_swap)
  also have "mset \<dots> = mset ?p"
    using mset_swap [OF len(2) len(1)] .
  finally show "mset (take (Suc m) (t[j := t ! Suc j, Suc j := t ! j])) = mset (take (Suc m) t)" .
  show "drop (Suc m) (t[j := t ! Suc j, Suc j := t ! j]) = drop (Suc m) t"
    using assms by simp
qed

lemma bubble_pass_result:
  fixes t0 :: "'a::linorder list"
  assumes m: "m < length t0"
  shows "\<exists>t. bubble_pass m t0 = Some t \<and> length t = length t0 \<and>
             mset (take (Suc m) t) = mset (take (Suc m) t0) \<and>
             drop (Suc m) t = drop (Suc m) t0 \<and>
             (\<forall>k<m. t ! k \<le> t ! m)"
proof -
  let ?I = "\<lambda>j t. length t = length t0 \<and>
             mset (take (Suc m) t) = mset (take (Suc m) t0) \<and>
             drop (Suc m) t = drop (Suc m) t0 \<and>
             (\<forall>k<j. t ! k \<le> t ! j)"
  let ?body = "\<lambda>j ts. case read_at ts j of
                  None \<Rightarrow> None
                | Some x \<Rightarrow>
                    (case read_at ts (j + 1) of
                       None \<Rightarrow> None
                     | Some y \<Rightarrow>
                         if x > y
                         then (case write_at ts j y of
                                 None \<Rightarrow> None
                               | Some ts' \<Rightarrow> write_at ts' (j + 1) x)
                         else Some ts)"
  have "\<exists>t. for_loop 0 m ?body t0 = Some t \<and> ?I m t"
  proof (rule for_loop_invariant [where I = ?I])
    show "?I 0 t0" by simp
    show "0 \<le> m" by simp
    show "\<exists>t'. ?body j t = Some t' \<and> ?I (Suc j) t'" if "j < m" "?I j t" for j t
    proof -
      from that m have mt: "m < length t" by simp
      let ?t' = "if t ! j > t ! Suc j then t[j := t ! Suc j, Suc j := t ! j] else t"
      have body: "?body j t = Some ?t'"
        using that(1) mt by (rule bubble_step)
      have "?I (Suc j) ?t'"
      proof (cases "t ! j > t ! Suc j")
        case True
        have jl: "j < length t" "Suc j < length t" using that(1) mt by simp_all
        have "\<forall>k<Suc j. (t[j := t ! Suc j, Suc j := t ! j]) ! k \<le> (t[j := t ! Suc j, Suc j := t ! j]) ! Suc j"
        proof (intro allI impI)
          fix k assume "k < Suc j"
          then consider "k < j" | "k = j" by linarith
          then show "(t[j := t ! Suc j, Suc j := t ! j]) ! k \<le> (t[j := t ! Suc j, Suc j := t ! j]) ! Suc j"
          proof cases
            case 1 then show ?thesis using that(2) jl by simp
          next
            case 2 then show ?thesis using True jl by simp
          qed
        qed
        with True that(2) swap_adjacent_prefix [OF that(1) mt] show ?thesis by simp
      next
        case False
        have "\<forall>k<Suc j. t ! k \<le> t ! Suc j"
        proof (intro allI impI)
          fix k assume "k < Suc j"
          then consider "k < j" | "k = j" by linarith
          then show "t ! k \<le> t ! Suc j"
          proof cases
            case 1
            with that(2) have "t ! k \<le> t ! j" by simp
            with False show ?thesis by simp
          next
            case 2 with False show ?thesis by simp
          qed
        qed
        with False that(2) show ?thesis by simp
      qed
      with body show ?thesis by blast
    qed
  qed
  then show ?thesis by (simp add: bubble_pass_def)
qed

lemma bubble_sort_result:
  fixes ts :: "'a::linorder list"
  assumes len: "length ts = n"
  shows "bubble_sort n ts = Some (sort ts)"
proof -
  let ?J = "\<lambda>i t. length t = n \<and> mset t = mset ts \<and> sorted (drop (n - i) t) \<and>
              (\<forall>x\<in>set (take (n - i) t). \<forall>y\<in>set (drop (n - i) t). x \<le> y)"
  have "\<exists>t. for_loop 0 (n - 1) (\<lambda>i ts. bubble_pass (n - i - 1) ts) ts = Some t \<and> ?J (n - 1) t"
  proof (rule for_loop_invariant [where I = ?J])
    show "?J 0 ts" using len by simp
    show "0 \<le> n - 1" by simp
    show "\<exists>t'. bubble_pass (n - i - 1) t = Some t' \<and> ?J (Suc i) t'"
      if "i < n - 1" "?J i t" for i t
    proof -
      define m where "m = n - i - 1"
      have mn: "Suc m = n - i" "m < length t" "n - Suc i = m"
        using that by (simp_all add: m_def)
      from bubble_pass_result [OF mn(2)] obtain t' where
        t': "bubble_pass m t = Some t'" "length t' = length t"
            "mset (take (Suc m) t') = mset (take (Suc m) t)"
            "drop (Suc m) t' = drop (Suc m) t"
            "\<forall>k<m. t' ! k \<le> t' ! m"
        by blast
      have pre: "set (take (Suc m) t') = set (take (Suc m) t)"
        using t'(3) by (rule mset_eq_setD)
      have ms: "mset t' = mset ts"
      proof -
        have "mset t' = mset (take (Suc m) t') + mset (drop (Suc m) t')"
          by (metis append_take_drop_id mset_append)
        also have "\<dots> = mset (take (Suc m) t) + mset (drop (Suc m) t)"
          using t'(3,4) by simp
        also have "\<dots> = mset t"
          by (metis append_take_drop_id mset_append)
        finally show ?thesis using that(2) by simp
      qed
      have ml: "m < length t'" using mn(2) t'(2) by simp
      have dr: "drop m t' = t' ! m # drop (Suc m) t" 
        using Cons_nth_drop_Suc [OF ml] t'(4) by simp
      have old: "\<forall>x\<in>set (take (Suc m) t). \<forall>y\<in>set (drop (Suc m) t). x \<le> y"
        "sorted (drop (Suc m) t)"
        using that(2) mn(1) by simp_all
      have top: "t' ! m \<in> set (take (Suc m) t)"
        using pre ml by (metis in_set_conv_nth length_take lessI min_less_iff_conj nth_take)
      have srt: "sorted (drop m t')"
        using dr old top by simp
      have low: "\<forall>x\<in>set (take m t'). \<forall>y\<in>set (drop m t'). x \<le> y"
      proof (intro ballI)
        fix x y assume x: "x \<in> set (take m t')" and y: "y \<in> set (drop m t')"
        from x obtain k where k: "k < m" "x = t' ! k"
          using ml by (auto simp: in_set_conv_nth)
        have xm: "x \<le> t' ! m" using k t'(5) by simp
        have "x \<in> set (take (Suc m) t')"
          using x by (meson in_set_takeD set_take_subset_set_take le_SucI order_refl subsetD)
        then have xo: "x \<in> set (take (Suc m) t)" using pre by simp
        from y dr have "y = t' ! m \<or> y \<in> set (drop (Suc m) t)" by simp
        then show "x \<le> y" using xm xo old(1) by blast
      qed
      have "?J (Suc i) t'"
        using t'(2) that(2) ms srt low mn(3) by simp
      with t'(1) show ?thesis by (simp add: m_def)
    qed
  qed
  then obtain t where t: "bubble_sort n ts = Some t" "length t = n" "mset t = mset ts"
    "sorted (drop (n - (n - 1)) t)"
    "\<forall>x\<in>set (take (n - (n - 1)) t). \<forall>y\<in>set (drop (n - (n - 1)) t). x \<le> y"
    by (auto simp: bubble_sort_def)
  have "sorted t"
  proof (cases n)
    case 0
    with t(2) show ?thesis by simp
  next
    case (Suc n')
    then obtain z zs where z: "t = z # zs" using t(2) by (cases t) auto
    from Suc have "n - (n - 1) = 1" by simp
    with t(4,5) z show ?thesis by simp
  qed
  with t(3) have "sort ts = t" by (rule properties_for_sort)
  with t(1) show ?thesis by simp
qed

lemma median_time_result:
  fixes tms :: "'a::linorder list"
  assumes "length tms = NUM_ITERATIONS"
  shows "median_time tms = Some (sort tms ! (NUM_ITERATIONS div 2))"
proof -
  have "NUM_ITERATIONS div 2 < length (sort tms)"
    using assms by (simp add: NUM_ITERATIONS_def)
  then show ?thesis
    using bubble_sort_result [OF assms] by (simp add: median_time_def read_at_def)
qed

section \<open>The read loop\<close>

lemma read_sum_exact:
  assumes rng: "\<forall>j<cnt. j < length ix \<and> ix ! j < length ar" and cnt: "cnt \<le> 2 ^ 32"
  shows "\<exists>s. read_sum ar ix cnt = Some s \<and> unat s = (\<Sum>j<cnt. unat (a (ar ! (ix ! j))))"
proof -
  let ?v = "\<lambda>j. unat (a (ar ! (ix ! j)))"
  let ?I = "\<lambda>j (s :: 64 word). unat s = (\<Sum>k<j. ?v k) \<and> unat s \<le> j * (2 ^ 32 - 1)"
  let ?body = "\<lambda>j sum. case read_at ix j of
                   None \<Rightarrow> None
                 | Some k \<Rightarrow>
                     (case read_at ar k of
                        None \<Rightarrow> None
                      | Some x \<Rightarrow> Some (sum + ucast (a x)))"
  have "\<exists>s. for_loop 0 cnt ?body 0 = Some s \<and> ?I cnt s"
  proof (rule for_loop_invariant [where I = ?I])
    show "?I 0 0" by simp
    show "0 \<le> cnt" by simp
    show "\<exists>t'. ?body j s = Some t' \<and> ?I (Suc j) t'" if "j < cnt" "?I j s" for j s
    proof -
      let ?x = "a (ar ! (ix ! j))"
      from rng that(1) have inr: "j < length ix" "ix ! j < length ar" by simp_all
      then have body: "?body j s = Some (s + ucast ?x)"
        by (simp add: read_at_def)
      have x32: "unat ?x < 2 ^ 32" using unsigned_less [of ?x] by simp
      then have "unat ?x < 2 ^ 64" by simp
      then have ux: "unat (ucast ?x :: 64 word) = unat ?x"
        by (simp add: unsigned_ucast_eq take_bit_nat_eq_self)
      from x32 have xb: "unat ?x \<le> 2 ^ 32 - 1" by simp
      have "Suc j \<le> 2 ^ 32" using that(1) cnt by simp
      then have "Suc j * (2 ^ 32 - 1) \<le> 2 ^ 32 * (2 ^ 32 - 1 :: nat)"
        by (rule mult_le_mono1)
      also have "\<dots> < 2 ^ 64" by simp
      finally have top: "Suc j * (2 ^ 32 - 1) < (2 :: nat) ^ 64" .
      have le: "unat s + unat ?x \<le> Suc j * (2 ^ 32 - 1)"
        using that(2) xb by simp
      with top have "unat s + unat (ucast ?x :: 64 word) < 2 ^ LENGTH(64)"
        using ux by simp
      then have "unat (s + ucast ?x) = unat s + unat (ucast ?x :: 64 word)"
        by (simp only: unat_add_lem)
      with ux have add: "unat (s + ucast ?x) = unat s + unat ?x" by simp
      have "?I (Suc j) (s + ucast ?x)"
        using add le that(2) by simp
      with body show ?thesis by blast
    qed
  qed
  then show ?thesis unfolding read_sum_def by blast
qed

lemma valid_index_sequence_in_range:
  assumes "valid_index_sequence N ix" and "length ar = N"
  shows "\<forall>j<N div 8. j < length ix \<and> ix ! j < length ar"
  using assms by (simp add: valid_index_sequence_def)

lemma read_sum_valid:
  assumes "valid_index_sequence N ix" and "length ar = N" and "N div 8 \<le> 2 ^ 32"
  shows "\<exists>s. read_sum ar ix (N div 8) = Some s \<and>
             unat s = (\<Sum>j<N div 8. unat (a (ar ! (ix ! j))))"
  using read_sum_exact [OF valid_index_sequence_in_range [OF assms(1,2)] assms(3)] .

lemma sequential_valid: "valid_index_sequence N (map (\<lambda>i. i * 8) [0..<N div 8])"
  by (rule valid_index_sequenceI) simp

lemma backward_valid: "valid_index_sequence N (map (\<lambda>i. (N div 8 - 1 - i) * 8) [0..<N div 8])"
  by (rule valid_index_sequenceI) (rule mset_backward)

lemma interleaved_valid:
  "even (N div 8) \<Longrightarrow> valid_index_sequence N
     (map (\<lambda>p. if even p then (p div 2) * 8 else (N div 8 div 2 + p div 2) * 8) [0..<N div 8])"
  by (rule valid_index_sequenceI) (rule mset_interleaved)

lemma bouncing_valid:
  "valid_index_sequence N
     (map (\<lambda>i. if i mod 2 = 0 then (i div 2) * 8 else (N div 8 - 1 - i div 2) * 8) [0..<N div 8])"
  by (rule valid_index_sequenceI) (rule mset_bouncing)

lemma random_valid:
  assumes "0 < N div 8"
  shows "valid_index_sequence N
           (fst (fisher_yates rand (N div 8 - 1) (map (\<lambda>i. i * 8) [0..<N div 8], r)))"
proof (rule valid_index_sequenceI)
  have "N div 8 - 1 < length (map (\<lambda>i. i * 8) [0..<N div 8])" using assms by simp
  then show "mset (fst (fisher_yates rand (N div 8 - 1) (map (\<lambda>i. i * 8) [0..<N div 8], r)))
      = mset (map (\<lambda>i. i * 8) [0..<N div 8])"
    by (rule fisher_yates_mset)
qed

lemma sum_stride:
  "(\<Sum>j<n. v (map (\<lambda>i. i * 8) [0..<n] ! j)) = (\<Sum>k<n. v (k * 8))"
  by (rule sum.cong) simp_all

lemma COUNT_small: "COUNT \<le> 2 ^ 32"
  by (simp add: ARRAY_SIZE_def)

section \<open>The benchmark of one pattern and the whole run\<close>

lemma warmup_runs_result:
  assumes "read_sum ar ix cnt = Some s"
  shows "warmup_runs ar ix cnt = Some ()"
proof -
  have "\<exists>u. for_loop 0 WARMUP_ITERATIONS
          (\<lambda>w u. case read_sum ar ix cnt of None \<Rightarrow> None | Some sm \<Rightarrow> Some u) () = Some u \<and> True"
    by (rule for_loop_invariant [where I = "\<lambda>_ _. True"]) (simp_all add: assms)
  then show ?thesis by (simp add: warmup_runs_def)
qed

lemma timed_runs_result:
  assumes rs: "read_sum ar ix cnt = Some s" and len: "length tms = NUM_ITERATIONS"
  shows "\<exists>tms'. timed_runs now ar ix cnt (tms, tk) = Some (tms', tk + 2 * NUM_ITERATIONS) \<and>
           length tms' = NUM_ITERATIONS"
proof -
  let ?I = "\<lambda>i st. length (fst st) = NUM_ITERATIONS \<and> snd st = tk + 2 * i"
  let ?body = "\<lambda>i st. case st of (tms, tk) \<Rightarrow>
          (let start = now tk in
           case read_sum ar ix cnt of
             None \<Rightarrow> None
           | Some sm \<Rightarrow>
               (let stop = now (tk + 1) in
                case write_at tms i ((stop - start) * 1000) of
                  None \<Rightarrow> None
                | Some tms' \<Rightarrow> Some (tms', tk + 2)))"
  have "\<exists>st. for_loop 0 NUM_ITERATIONS ?body (tms, tk) = Some st \<and> ?I NUM_ITERATIONS st"
  proof (rule for_loop_invariant [where I = ?I])
    show "?I 0 (tms, tk)" using len by simp
    show "0 \<le> NUM_ITERATIONS" by simp
    show "\<exists>t'. ?body i st = Some t' \<and> ?I (Suc i) t'" if "i < NUM_ITERATIONS" "?I i st" for i st
      using that rs by (cases st) (simp add: write_at_def Let_def)
  qed
  then obtain st where st: "timed_runs now ar ix cnt (tms, tk) = Some st"
    "length (fst st) = NUM_ITERATIONS" "snd st = tk + 2 * NUM_ITERATIONS"
    unfolding timed_runs_def by blast
  then show ?thesis by (cases st) simp
qed

lemma benchmark_pattern_result:
  assumes gen: "generate_func st = Some stg"
    and valid: "valid_index_sequence N (indices stg)"
    and ar: "length (arr stg) = N"
    and small: "N div 8 \<le> 2 ^ 32"
  shows "\<exists>m. benchmark_pattern N now generate_func pattern_name st =
           Some (m, stg\<lparr>ticks := ticks stg + 2 * NUM_ITERATIONS,
                        stdout := stdout stg @ [PatternLine pattern_name m]\<rparr>)"
proof -
  from read_sum_valid [OF valid ar small]
  obtain s where s: "read_sum (arr stg) (indices stg) (N div 8) = Some s" by blast
  have w: "warmup_runs (arr stg) (indices stg) (N div 8) = Some ()"
    using s by (rule warmup_runs_result)
  from timed_runs_result [OF s, of "replicate NUM_ITERATIONS 0" now "ticks stg"]
  obtain tms where t: "timed_runs now (arr stg) (indices stg) (N div 8)
        (replicate NUM_ITERATIONS 0, ticks stg) = Some (tms, ticks stg + 2 * NUM_ITERATIONS)"
    "length tms = NUM_ITERATIONS" by auto
  have m: "median_time tms = Some (sort tms ! (NUM_ITERATIONS div 2))"
    using t(2) by (rule median_time_result)
  show ?thesis
    using gen w t(1) m by (simp add: benchmark_pattern_def Let_def)
qed

lemma init_array_result:
  assumes "length ar0 = N"
  shows "\<exists>ar r. init_array N rand (ar0, r0) = Some (ar, r) \<and> length ar = N"
proof -
  let ?I = "\<lambda>i (st :: DataStruct list \<times> 'a). length (fst st) = N"
  let ?body = "\<lambda>i st. case st of (ar, r) \<Rightarrow>
          (case init_record rand r of (x, r') \<Rightarrow>
             (case write_at ar i x of
                None \<Rightarrow> None
              | Some ar' \<Rightarrow> Some (ar', r')))"
  have "\<exists>st. for_loop 0 N ?body (ar0, r0) = Some st \<and> ?I N st"
  proof (rule for_loop_invariant [where I = ?I])
    show "?I 0 (ar0, r0)" using assms by simp
    show "0 \<le> N" by simp
    show "\<exists>t'. ?body i st = Some t' \<and> ?I (Suc i) t'" if "i < N" "?I i st" for i st
      using that by (cases st; cases "init_record rand (snd st)") (simp add: write_at_def)
  qed
  then obtain st where "init_array N rand (ar0, r0) = Some st" "length (fst st) = N"
    unfolding init_array_def by blast
  then show ?thesis by (cases st) simp
qed

lemma benchmark_pattern_props:
  assumes "generate_func st = Some stg"
    and "valid_index_sequence N (indices stg)"
    and "length (arr stg) = N"
    and "N div 8 \<le> 2 ^ 32"
  shows "\<exists>m st'. benchmark_pattern N now generate_func pattern_name st = Some (m, st') \<and>
           arr st' = arr stg \<and> indices st' = indices stg \<and> rng st' = rng stg \<and>
           ticks st' = ticks stg + 2 * NUM_ITERATIONS \<and>
           stdout st' = stdout stg @ [PatternLine pattern_name m]"
proof -
  from benchmark_pattern_result [where generate_func = generate_func and st = st and stg = stg
      and N = N and now = now and pattern_name = pattern_name, OF assms]
  obtain m where "benchmark_pattern N now generate_func pattern_name st =
           Some (m, stg\<lparr>ticks := ticks stg + 2 * NUM_ITERATIONS,
                        stdout := stdout stg @ [PatternLine pattern_name m]\<rparr>)" by blast
  then show ?thesis by simp
qed

lemma on_indices_result:
  assumes "generate (indices st) = Some ix"
  shows "on_indices generate st = Some (st\<lparr>indices := ix\<rparr>)"
  using assms by (simp add: on_indices_def)

lemma on_indices_rng_result:
  assumes "generate (indices st, rng st) = Some (ix, r)"
  shows "on_indices_rng generate st = Some (st\<lparr>indices := ix, rng := r\<rparr>)"
  using assms by (simp add: on_indices_rng_def)

lemma benchmark_fixed_generator:
  assumes gen: "generate (indices st) = Some ix"
    and valid: "valid_index_sequence N ix"
    and ar: "length (arr st) = N"
    and small: "N div 8 \<le> 2 ^ 32"
  shows "\<exists>m st'. benchmark_pattern N now (on_indices generate) pattern_name st = Some (m, st') \<and>
           arr st' = arr st \<and> indices st' = ix \<and> rng st' = rng st \<and>
           ticks st' = ticks st + 2 * NUM_ITERATIONS \<and>
           stdout st' = stdout st @ [PatternLine pattern_name m]"
proof -
  have "on_indices generate st = Some (st\<lparr>indices := ix\<rparr>)"
    using gen by (rule on_indices_result)
  from benchmark_pattern_props [where generate_func = "on_indices generate" and st = st
      and N = N and now = now and pattern_name = pattern_name, OF this]
  show ?thesis using valid ar small by simp
qed

lemma benchmark_random_generator:
  assumes gen: "generate (indices st, rng st) = Some (ix, r)"
    and valid: "valid_index_sequence N ix"
    and ar: "length (arr st) = N"
    and small: "N div 8 \<le> 2 ^ 32"
  shows "\<exists>m st'. benchmark_pattern N now (on_indices_rng generate) pattern_name st = Some (m, st') \<and>
           arr st' = arr st \<and> indices st' = ix \<and> rng st' = r \<and>
           ticks st' = ticks st + 2 * NUM_ITERATIONS \<and>
           stdout st' = stdout st @ [PatternLine pattern_name m]"
proof -
  have "on_indices_rng generate st = Some (st\<lparr>indices := ix, rng := r\<rparr>)"
    using gen by (rule on_indices_rng_result)
  from benchmark_pattern_props [where generate_func = "on_indices_rng generate" and st = st
      and N = N and now = now and pattern_name = pattern_name, OF this]
  show ?thesis using valid ar small by simp
qed

lemma random_result_valid:
  assumes "length ix0 = N div 8" and "0 < N div 8"
  shows "\<exists>xs r'. generate_random_indices N rand (ix0, r) = Some (xs, r') \<and>
           xs = fst (fisher_yates rand (N div 8 - 1) (map (\<lambda>i. i * 8) [0..<N div 8], r)) \<and>
           valid_index_sequence N xs"
  using random_result [OF assms, of rand r] random_valid [OF assms(2), of rand r]
  by (cases "fisher_yates rand (N div 8 - 1) (map (\<lambda>i. i * 8) [0..<N div 8], r)") simp

lemma run_benchmarks_result:
  assumes ar0: "length ar0 = N" and ix0: "length ix0 = N div 8"
    and ev: "even (N div 8)" and pos: "0 < N div 8" and small: "N div 8 \<le> 2 ^ 32"
  shows "\<exists>ar r st. init_array N rand (ar0, srand 12345) = Some (ar, r) \<and>
           run_benchmarks N srand rand now ar0 ix0 = Some st \<and>
           arr st = ar \<and>
           indices st = fst (fisher_yates rand (N div 8 - 1)
                               (map (\<lambda>i. i * 8) [0..<N div 8], srand 42)) \<and>
           ticks st = 10 * NUM_ITERATIONS"
proof -
  from init_array_result [OF ar0, of rand "srand 12345"]
  obtain ar r where init: "init_array N rand (ar0, srand 12345) = Some (ar, r)"
    and lar: "length ar = N" by blast
  let ?st0 = "\<lparr>arr = ar, indices = ix0, rng = srand 42, ticks = 0,
                      stdout = [Banner ''Memory Access Pattern Benchmark (C - Windows)'',
                                ArrayLine N (real (N * 32) / (1024 * 1024)),
                                IterLine NUM_ITERATIONS]\<rparr>"
  have s0: "length (indices ?st0) = N div 8" "length (arr ?st0) = N" "arr ?st0 = ar"
    "rng ?st0 = srand 42" "ticks ?st0 = 0"
    using ix0 lar by simp_all
  from benchmark_fixed_generator [where generate = "generate_sequential_indices N" and st = ?st0
      and now = now and pattern_name = "''Sequential''",
      OF sequential_result [OF s0(1)] sequential_valid s0(2) small]
  obtain m1 st1 where b1: "benchmark_pattern N now (on_indices (generate_sequential_indices N))
        ''Sequential'' ?st0 = Some (m1, st1)"
    and s1: "arr st1 = ar" "length (indices st1) = N div 8" "rng st1 = srand 42"
      "ticks st1 = 2 * NUM_ITERATIONS"
    using s0(3,4,5) by (elim exE conjE) (rule that, simp_all)
  have l1: "length (arr st1) = N" using s1(1) lar by simp
  from benchmark_fixed_generator [where generate = "generate_backward_indices N" and st = st1
      and now = now and pattern_name = "''Backward''",
      OF backward_result [OF s1(2)] backward_valid l1 small]
  obtain m2 st2 where b2: "benchmark_pattern N now (on_indices (generate_backward_indices N))
        ''Backward'' st1 = Some (m2, st2)"
    and s2: "arr st2 = ar" "length (indices st2) = N div 8" "rng st2 = srand 42"
      "ticks st2 = 4 * NUM_ITERATIONS"
    using s1 by (elim exE conjE) (rule that, simp_all)
  have l2: "length (arr st2) = N" using s2(1) lar by simp
  from benchmark_fixed_generator [where generate = "generate_interleaved_indices N" and st = st2
      and now = now and pattern_name = "''Interleaved''",
      OF interleaved_result [OF s2(2) ev] interleaved_valid [OF ev] l2 small]
  obtain m3 st3 where b3: "benchmark_pattern N now (on_indices (generate_interleaved_indices N))
        ''Interleaved'' st2 = Some (m3, st3)"
    and s3: "arr st3 = ar" "length (indices st3) = N div 8" "rng st3 = srand 42"
      "ticks st3 = 6 * NUM_ITERATIONS"
    using s2 by (elim exE conjE) (rule that, simp_all)
  have l3: "length (arr st3) = N" using s3(1) lar by simp
  from benchmark_fixed_generator [where generate = "generate_bouncing_indices N" and st = st3
      and now = now and pattern_name = "''Bouncing''",
      OF bouncing_result [OF s3(2)] bouncing_valid l3 small]
  obtain m4 st4 where b4: "benchmark_pattern N now (on_indices (generate_bouncing_indices N))
        ''Bouncing'' st3 = Some (m4, st4)"
    and s4: "arr st4 = ar" "length (indices st4) = N div 8" "rng st4 = srand 42"
      "ticks st4 = 8 * NUM_ITERATIONS"
    using s3 by (elim exE conjE) (rule that, simp_all)
  have l4: "length (arr st4) = N" using s4(1) lar by simp
  let ?fy = "fisher_yates rand (N div 8 - 1) (map (\<lambda>i. i * 8) [0..<N div 8], srand 42)"
  from random_result_valid [OF s4(2) pos, of rand "rng st4"]
  obtain xs r' where rn: "generate_random_indices N rand (indices st4, rng st4) = Some (xs, r')"
    "xs = fst ?fy" "valid_index_sequence N xs"
    using s4(3) by auto
  from benchmark_random_generator [where generate = "generate_random_indices N rand" and st = st4
      and now = now and pattern_name = "''Random''", OF rn(1) rn(3) l4 small]
  obtain m5 st5 where b5: "benchmark_pattern N now (on_indices_rng (generate_random_indices N rand))
        ''Random'' st4 = Some (m5, st5)"
    and s5: "arr st5 = ar" "indices st5 = fst ?fy" "ticks st5 = 10 * NUM_ITERATIONS"
    using s4 rn(2) by (elim exE conjE) (rule that, simp_all)
  have run: "run_benchmarks N srand rand now ar0 ix0 =
      Some (st5\<lparr>stdout := stdout st5 @
                       [Banner ''CSV_OUTPUT:'', Banner ''Pattern,Time_ms'',
                        CsvRow ''Sequential'' m1, CsvRow ''Backward'' m2,
                        CsvRow ''Interleaved'' m3, CsvRow ''Bouncing'' m4,
                        CsvRow ''Random'' m5]\<rparr>)"
    by (simp only: run_benchmarks_def Let_def init option.case prod.case b1 b2 b3 b4 b5)
  show ?thesis
    using init run s5 by simp
qed

lemma COUNT_pos: "0 < COUNT"
  by (simp add: ARRAY_SIZE_def)

lemma get_time_win32_mono:
  assumes "0 < QuadPart frequency" and "QuadPart c1 \<le> QuadPart c2"
  shows "get_time_win32 frequency c1 \<le> get_time_win32 frequency c2"
  using assms by (simp add: get_time_win32_def divide_right_mono)

lemma benchmark_keeps_arr:
  assumes ar: "length (arr st) = N" and ix: "length (indices st) = N div 8"
    and ev: "even (N div 8)" and pos: "0 < N div 8" and small: "N div 8 \<le> 2 ^ 32"
  shows "\<exists>m st'. benchmark_pattern N now (on_indices (generate_sequential_indices N)) name st
            = Some (m, st') \<and> arr st' = arr st"
    and "\<exists>m st'. benchmark_pattern N now (on_indices (generate_backward_indices N)) name st
            = Some (m, st') \<and> arr st' = arr st"
    and "\<exists>m st'. benchmark_pattern N now (on_indices (generate_interleaved_indices N)) name st
            = Some (m, st') \<and> arr st' = arr st"
    and "\<exists>m st'. benchmark_pattern N now (on_indices (generate_bouncing_indices N)) name st
            = Some (m, st') \<and> arr st' = arr st"
    and "\<exists>m st'. benchmark_pattern N now (on_indices_rng (generate_random_indices N rand)) name st
            = Some (m, st') \<and> arr st' = arr st"
proof -
  from benchmark_fixed_generator [where generate = "generate_sequential_indices N" and st = st
      and now = now and pattern_name = name, OF sequential_result [OF ix] sequential_valid ar small]
  show "\<exists>m st'. benchmark_pattern N now (on_indices (generate_sequential_indices N)) name st
            = Some (m, st') \<and> arr st' = arr st" by blast
  from benchmark_fixed_generator [where generate = "generate_backward_indices N" and st = st
      and now = now and pattern_name = name, OF backward_result [OF ix] backward_valid ar small]
  show "\<exists>m st'. benchmark_pattern N now (on_indices (generate_backward_indices N)) name st
            = Some (m, st') \<and> arr st' = arr st" by blast
  from benchmark_fixed_generator [where generate = "generate_interleaved_indices N" and st = st
      and now = now and pattern_name = name,
      OF interleaved_result [OF ix ev] interleaved_valid [OF ev] ar small]
  show "\<exists>m st'. benchmark_pattern N now (on_indices (generate_interleaved_indices N)) name st
            = Some (m, st') \<and> arr st' = arr st" by blast
  from benchmark_fixed_generator [where generate = "generate_bouncing_indices N" and st = st
      and now = now and pattern_name = name, OF bouncing_result [OF ix] bouncing_valid ar small]
  show "\<exists>m st'. benchmark_pattern N now (on_indices (generate_bouncing_indices N)) name st
            = Some (m, st') \<and> arr st' = arr st" by blast
  from random_result_valid [OF ix pos, of rand "rng st"]
  obtain xs r' where rn: "generate_random_indices N rand (indices st, rng st) = Some (xs, r')"
    "valid_index_sequence N xs" by blast
  from benchmark_random_generator [where generate = "generate_random_indices N rand" and st = st
      and now = now and pattern_name = name, OF rn ar small]
  show "\<exists>m st'. benchmark_pattern N now (on_indices_rng (generate_random_indices N rand)) name st
            = Some (m, st') \<and> arr st' = arr st" by blast
qed

section \<open>The statistic that the benchmark returns\<close>

lemma timed_runs_samples:
  assumes rs: "read_sum ar ix cnt = Some s" and len: "length tms = NUM_ITERATIONS"
  shows "timed_runs now ar ix cnt (tms, tk) =
           Some (timing_samples now tk, tk + 2 * NUM_ITERATIONS)"
proof -
  let ?v = "\<lambda>i. (now (tk + 2 * i + 1) - now (tk + 2 * i)) * 1000"
  let ?I = "\<lambda>i st. length (fst st) = NUM_ITERATIONS \<and> snd st = tk + 2 * i \<and>
              (\<forall>k<i. fst st ! k = ?v k)"
  let ?body = "\<lambda>i st. case st of (tms, tk) \<Rightarrow>
          (let start = now tk in
           case read_sum ar ix cnt of
             None \<Rightarrow> None
           | Some sm \<Rightarrow>
               (let stop = now (tk + 1) in
                case write_at tms i ((stop - start) * 1000) of
                  None \<Rightarrow> None
                | Some tms' \<Rightarrow> Some (tms', tk + 2)))"
  have "\<exists>st. for_loop 0 NUM_ITERATIONS ?body (tms, tk) = Some st \<and> ?I NUM_ITERATIONS st"
  proof (rule for_loop_invariant [where I = ?I])
    show "?I 0 (tms, tk)" using len by simp
    show "0 \<le> NUM_ITERATIONS" by simp
    show "\<exists>t'. ?body i st = Some t' \<and> ?I (Suc i) t'" if "i < NUM_ITERATIONS" "?I i st" for i st
      using that rs
      by (cases st) (auto simp: write_at_def Let_def nth_list_update less_Suc_eq)
  qed
  then obtain st where st: "timed_runs now ar ix cnt (tms, tk) = Some st"
    "length (fst st) = NUM_ITERATIONS" "snd st = tk + 2 * NUM_ITERATIONS"
    "\<forall>k<NUM_ITERATIONS. fst st ! k = ?v k"
    unfolding timed_runs_def by blast
  have "fst st = timing_samples now tk"
    unfolding timing_samples_def using st(2,4) by (intro nth_equalityI) simp_all
  with st(1,3) show ?thesis by (cases st) simp
qed

lemma benchmark_pattern_median:
  assumes gen: "generate_func st = Some stg"
    and valid: "valid_index_sequence N (indices stg)"
    and ar: "length (arr stg) = N"
    and small: "N div 8 \<le> 2 ^ 32"
  shows "\<exists>st'. benchmark_pattern N now generate_func pattern_name st =
           Some (sort (timing_samples now (ticks stg)) ! (NUM_ITERATIONS div 2), st')"
proof -
  from read_sum_valid [OF valid ar small]
  obtain s where s: "read_sum (arr stg) (indices stg) (N div 8) = Some s" by blast
  have w: "warmup_runs (arr stg) (indices stg) (N div 8) = Some ()"
    using s by (rule warmup_runs_result)
  have t: "timed_runs now (arr stg) (indices stg) (N div 8)
        (replicate NUM_ITERATIONS 0, ticks stg) =
        Some (timing_samples now (ticks stg), ticks stg + 2 * NUM_ITERATIONS)"
    using s by (rule timed_runs_samples) simp
  have "length (timing_samples now (ticks stg)) = NUM_ITERATIONS"
    by (simp add: timing_samples_def)
  then have m: "median_time (timing_samples now (ticks stg)) =
      Some (sort (timing_samples now (ticks stg)) ! (NUM_ITERATIONS div 2))"
    by (rule median_time_result)
  show ?thesis
    using gen w t m by (simp add: benchmark_pattern_def Let_def)
qed

lemma benchmark_returns_median:
  assumes ar: "length (arr st) = N" and ix: "length (indices st) = N div 8"
    and ev: "even (N div 8)" and pos: "0 < N div 8" and small: "N div 8 \<le> 2 ^ 32"
  shows "\<exists>st'. benchmark_pattern N now (on_indices (generate_sequential_indices N)) name st
            = Some (sort (timing_samples now (ticks st)) ! (NUM_ITERATIONS div 2), st')"
    and "\<exists>st'. benchmark_pattern N now (on_indices (generate_backward_indices N)) name st
            = Some (sort (timing_samples now (ticks st)) ! (NUM_ITERATIONS div 2), st')"
    and "\<exists>st'. benchmark_pattern N now (on_indices (generate_interleaved_indices N)) name st
            = Some (sort (timing_samples now (ticks st)) ! (NUM_ITERATIONS div 2), st')"
    and "\<exists>st'. benchmark_pattern N now (on_indices (generate_bouncing_indices N)) name st
            = Some (sort (timing_samples now (ticks st)) ! (NUM_ITERATIONS div 2), st')"
    and "\<exists>st'. benchmark_pattern N now (on_indices_rng (generate_random_indices N rand)) name st
            = Some (sort (timing_samples now (ticks st)) ! (NUM_ITERATIONS div 2), st')"
proof -
  have fixed: "\<exists>st'. benchmark_pattern N now (on_indices generate) name st
            = Some (sort (timing_samples now (ticks st)) ! (NUM_ITERATIONS div 2), st')"
    if g: "generate (indices st) = Some xs" and v: "valid_index_sequence N xs"
    for generate xs
  proof -
    have o: "on_indices generate st = Some (st\<lparr>indices := xs\<rparr>)"
      using g by (rule on_indices_result)
    from benchmark_pattern_median [where generate_func = "on_indices generate" and st = st
        and N = N and now = now and pattern_name = name, OF o]
    show ?thesis using v ar small by simp
  qed
  show "\<exists>st'. benchmark_pattern N now (on_indices (generate_sequential_indices N)) name st
            = Some (sort (timing_samples now (ticks st)) ! (NUM_ITERATIONS div 2), st')"
    using sequential_result [OF ix] sequential_valid by (rule fixed)
  show "\<exists>st'. benchmark_pattern N now (on_indices (generate_backward_indices N)) name st
            = Some (sort (timing_samples now (ticks st)) ! (NUM_ITERATIONS div 2), st')"
    using backward_result [OF ix] backward_valid by (rule fixed)
  show "\<exists>st'. benchmark_pattern N now (on_indices (generate_interleaved_indices N)) name st
            = Some (sort (timing_samples now (ticks st)) ! (NUM_ITERATIONS div 2), st')"
    using interleaved_result [OF ix ev] interleaved_valid [OF ev] by (rule fixed)
  show "\<exists>st'. benchmark_pattern N now (on_indices (generate_bouncing_indices N)) name st
            = Some (sort (timing_samples now (ticks st)) ! (NUM_ITERATIONS div 2), st')"
    using bouncing_result [OF ix] bouncing_valid by (rule fixed)
  from random_result_valid [OF ix pos, of rand "rng st"]
  obtain xs r' where rn: "generate_random_indices N rand (indices st, rng st) = Some (xs, r')"
    "valid_index_sequence N xs" by blast
  have o: "on_indices_rng (generate_random_indices N rand) st = Some (st\<lparr>indices := xs, rng := r'\<rparr>)"
    using rn(1) by (rule on_indices_rng_result)
  from benchmark_pattern_median [where generate_func = "on_indices_rng (generate_random_indices N rand)"
      and st = st and N = N and now = now and pattern_name = name, OF o]
  show "\<exists>st'. benchmark_pattern N now (on_indices_rng (generate_random_indices N rand)) name st
            = Some (sort (timing_samples now (ticks st)) ! (NUM_ITERATIONS div 2), st')"
    using rn(2) ar small by simp
qed

lemma sample_clock_samples:
  "timing_samples (sample_clock [5, 1, 4, 2, 8, 9, 3, 7, 6, 0]) 0 = [5, 1, 4, 2, 8, 9, 3, 7, 6, 0]"
  by (simp add: timing_samples_def sample_clock_def NUM_ITERATIONS_def upt_rec)

section \<open>The definitions on small buffers\<close>

text \<open>
  The generators with \<^verbatim>\<open>ARRAY_SIZE\<close> set to 64 or 56, the shuffle driven by a counter in
  place of \<^verbatim>\<open>rand()\<close>, an index array that is too short, and the read loop.
\<close>

lemma small_sequential:
  "generate_sequential_indices 64 (replicate 8 0) = Some [0, 8, 16, 24, 32, 40, 48, 56]"
  by code_simp

lemma small_backward:
  "generate_backward_indices 64 (replicate 8 0) = Some [56, 48, 40, 32, 24, 16, 8, 0]"
  by code_simp

lemma small_interleaved:
  "generate_interleaved_indices 64 (replicate 8 0) = Some [0, 32, 8, 40, 16, 48, 24, 56]"
  by code_simp

lemma small_bouncing:
  "generate_bouncing_indices 64 (replicate 8 0) = Some [0, 56, 8, 48, 16, 40, 24, 32]"
  by code_simp

lemma small_random:
  "generate_random_indices 64 (\<lambda>r. (r, r + 1)) (replicate 8 0, 42)
     = Some ([48, 32, 24, 40, 0, 56, 8, 16], 49)"
  by code_simp

lemma small_fisher_yates:
  "fisher_yates (\<lambda>r. (r, r + 1)) 7 ([0, 8, 16, 24, 32, 40, 48, 56 :: nat], 42)
     = ([48, 32, 24, 40, 0, 56, 8, 16], 49)"
  by code_simp

lemma small_short_array:
  "generate_sequential_indices 64 (replicate 7 0) = None"
  by code_simp

lemma small_interleaved_odd:
  "generate_interleaved_indices 56 (replicate 7 99) = Some [0, 24, 8, 32, 16, 40, 99]"
  by code_simp

lemma small_empty_shuffle:
  "generate_random_indices 7 rand ([], r) = None"
proof -
  have "generate_sequential_indices 7 [] = Some []"
    by (simp add: generate_sequential_indices_def for_loop.simps)
  moreover have "shuffle_loop rand (2 ^ 64 - 1) ([], r) = None"
    by (subst shuffle_loop.simps)
      (simp add: shuffle_step_def read_at_def split: prod.splits)
  ultimately show ?thesis
    by (simp add: generate_random_indices_def)
qed

lemma small_read_sum:
  "read_sum [\<lparr>a = 4294967295, b = 0, c = 0, d = 0, e = 0, f = 0, g = 0, h = 0\<rparr>] [0, 0] 2
     = Some 8589934590"
  by (simp add: read_sum_def for_loop.simps read_at_def)

lemma small_read_sum_out_of_range:
  "read_sum [\<lparr>a = 1, b = 0, c = 0, d = 0, e = 0, f = 0, g = 0, h = 0\<rparr>] [0, 8] 2 = None"
  by (simp add: read_sum_def for_loop.simps read_at_def)

section \<open>The claims about the generators\<close>

text \<open>
  Claim C5. On an index array of \<open>COUNT\<close> elements the Sequential generator writes
  \<open>offset[i] = i * 8\<close>, a strictly increasing sequence, the Backward generator writes
  \<open>offset[i] = (COUNT - 1 - i) * 8\<close>, a strictly decreasing sequence, and each is the
  reverse of the other: Backward's \<open>offset[i]\<close> is Sequential's \<open>offset[COUNT - 1 - i]\<close>.
\<close>

theorem c5_sequential_backward:
  assumes "length ix0 = COUNT"
  shows "\<exists>sq bw.
           generate_sequential_indices ARRAY_SIZE ix0 = Some sq \<and>
           generate_backward_indices ARRAY_SIZE ix0 = Some bw \<and>
           length sq = COUNT \<and> length bw = COUNT \<and>
           (\<forall>i<COUNT. sq ! i = i * 8) \<and>
           (\<forall>i<COUNT. bw ! i = (COUNT - 1 - i) * 8) \<and>
           sorted_wrt (<) sq \<and> sorted_wrt (>) bw \<and>
           (\<forall>i<COUNT. bw ! i = sq ! (COUNT - 1 - i)) \<and>
           bw = rev sq"
proof -
  let ?sq = "map (\<lambda>i. i * 8) [0..<COUNT]"
  let ?bw = "map (\<lambda>i. (COUNT - 1 - i) * 8) [0..<COUNT]"
  have 1: "generate_sequential_indices ARRAY_SIZE ix0 = Some ?sq"
    using assms by (rule sequential_result)
  have 2: "generate_backward_indices ARRAY_SIZE ix0 = Some ?bw"
    using assms by (rule backward_result)
  have 3: "\<forall>i<COUNT. ?sq ! i = i * 8" by simp
  have 4: "\<forall>i<COUNT. ?bw ! i = (COUNT - 1 - i) * 8" by simp
  have 5: "\<forall>i<COUNT. ?bw ! i = ?sq ! (COUNT - 1 - i)" by simp
  have 6: "?bw = rev ?sq" by (rule backward_is_rev)
  have 7: "length ?sq = COUNT" "length ?bw = COUNT" by simp_all
  show ?thesis
    using 1 2 3 4 5 6 7 stride_strict [of COUNT] backward_strict [of COUNT] by blast
qed

text \<open>The same on an array of 524288 zeros, read at position 3.\<close>

theorem c5_sequential_backward_witness:
  "length (replicate 524288 (0::nat)) = COUNT \<and>
   (\<exists>sq bw.
      generate_sequential_indices ARRAY_SIZE (replicate 524288 0) = Some sq \<and>
      generate_backward_indices ARRAY_SIZE (replicate 524288 0) = Some bw \<and>
      sq ! 3 = 24 \<and> bw ! 3 = 4194272 \<and> bw ! 3 = sq ! 524284)"
proof -
  have len: "length (replicate 524288 (0::nat)) = COUNT"
    by (simp add: ARRAY_SIZE_def)
  from c5_sequential_backward [OF len] obtain sq bw where
    r: "generate_sequential_indices ARRAY_SIZE (replicate 524288 0) = Some sq"
       "generate_backward_indices ARRAY_SIZE (replicate 524288 0) = Some bw"
       "\<forall>i<COUNT. sq ! i = i * 8"
       "\<forall>i<COUNT. bw ! i = (COUNT - 1 - i) * 8"
       "\<forall>i<COUNT. bw ! i = sq ! (COUNT - 1 - i)"
    by blast
  have "(3::nat) < COUNT" by (simp add: ARRAY_SIZE_def)
  with r(3,4,5) have "sq ! 3 = 24" "bw ! 3 = 4194272" "bw ! 3 = sq ! 524284"
    by (simp_all add: ARRAY_SIZE_def)
  with len r(1,2) show ?thesis by blast
qed

text \<open>
  Claim C1. On an index array of \<open>COUNT = 524288\<close> elements each of the five generators
  (Sequential, Backward, Interleaved, Bouncing, Random with any \<^verbatim>\<open>rand\<close> and any state
  of it) returns without an access out of range, and what it leaves in \<^verbatim>\<open>indices\<close> is a
  valid index sequence: \<open>COUNT\<close> values, a permutation of \<open>0, 8, ..., ARRAY_SIZE - 8\<close>,
  all distinct, each a multiple of 8 and below \<open>ARRAY_SIZE\<close>.
\<close>

theorem c1_generators_permute:
  assumes "length ix0 = COUNT"
  shows "COUNT = 524288 \<and>
         (\<exists>xs. generate_sequential_indices ARRAY_SIZE ix0 = Some xs \<and>
               valid_index_sequence ARRAY_SIZE xs) \<and>
         (\<exists>xs. generate_backward_indices ARRAY_SIZE ix0 = Some xs \<and>
               valid_index_sequence ARRAY_SIZE xs) \<and>
         (\<exists>xs. generate_interleaved_indices ARRAY_SIZE ix0 = Some xs \<and>
               valid_index_sequence ARRAY_SIZE xs) \<and>
         (\<exists>xs. generate_bouncing_indices ARRAY_SIZE ix0 = Some xs \<and>
               valid_index_sequence ARRAY_SIZE xs) \<and>
         (\<exists>xs r'. generate_random_indices ARRAY_SIZE rand (ix0, r) = Some (xs, r') \<and>
               valid_index_sequence ARRAY_SIZE xs)"
proof -
  have sq: "\<exists>xs. generate_sequential_indices ARRAY_SIZE ix0 = Some xs \<and>
               valid_index_sequence ARRAY_SIZE xs"
    using sequential_result [OF assms] valid_index_sequenceI [of _ ARRAY_SIZE] by simp
  have bw: "\<exists>xs. generate_backward_indices ARRAY_SIZE ix0 = Some xs \<and>
               valid_index_sequence ARRAY_SIZE xs"
    using backward_result [OF assms] valid_index_sequenceI [OF mset_backward] by simp
  have il: "\<exists>xs. generate_interleaved_indices ARRAY_SIZE ix0 = Some xs \<and>
               valid_index_sequence ARRAY_SIZE xs"
    using interleaved_result [OF assms COUNT_even]
      valid_index_sequenceI [OF mset_interleaved [OF COUNT_even]] by simp
  have bo: "\<exists>xs. generate_bouncing_indices ARRAY_SIZE ix0 = Some xs \<and>
               valid_index_sequence ARRAY_SIZE xs"
    using bouncing_result [OF assms] valid_index_sequenceI [OF mset_bouncing] by simp
  have pos: "0 < COUNT" by (simp add: ARRAY_SIZE_def)
  let ?sq = "map (\<lambda>i. i * 8) [0..<COUNT]"
  obtain xs r' where fy: "fisher_yates rand (COUNT - 1) (?sq, r) = (xs, r')"
    by (cases "fisher_yates rand (COUNT - 1) (?sq, r)")
  have "COUNT - 1 < length ?sq" using pos by simp
  from fisher_yates_mset [OF this, of rand r] fy have "mset xs = mset ?sq" by simp
  then have "valid_index_sequence ARRAY_SIZE xs" by (rule valid_index_sequenceI)
  moreover have "generate_random_indices ARRAY_SIZE rand (ix0, r) = Some (xs, r')"
    using random_result [OF assms pos, of rand r] fy by simp
  ultimately have rn: "\<exists>xs r'. generate_random_indices ARRAY_SIZE rand (ix0, r) = Some (xs, r') \<and>
               valid_index_sequence ARRAY_SIZE xs" by blast
  show ?thesis
    by (intro conjI) (rule COUNT_value sq bw il bo rn)+
qed

text \<open>
  The same on an array of 524288 zeros, with the sample generator of the C standard
  seeded with 42; the offset 24 is in both sequences.
\<close>

theorem c1_generators_permute_witness:
  "length (replicate 524288 (0::nat)) = COUNT \<and>
   (\<exists>xs. generate_sequential_indices ARRAY_SIZE (replicate 524288 0) = Some xs \<and>
      length xs = 524288 \<and> distinct xs \<and> 24 \<in> set xs \<and> 8 dvd (24::nat) \<and> 24 < ARRAY_SIZE) \<and>
   (\<exists>xs r'. generate_random_indices ARRAY_SIZE rand_c (replicate 524288 0, srand_c 42)
        = Some (xs, r') \<and>
      length xs = 524288 \<and> distinct xs \<and> 24 \<in> set xs)"
proof -
  have len: "length (replicate 524288 (0::nat)) = COUNT"
    by (simp add: ARRAY_SIZE_def)
  have three: "(3::nat) < COUNT" by (simp add: ARRAY_SIZE_def)
  have props: "length xs = 524288 \<and> distinct xs \<and> 24 \<in> set xs"
    if "valid_index_sequence ARRAY_SIZE xs" for xs
    using that valid_index_sequence_mem [OF that three]
    by (simp add: valid_index_sequence_def ARRAY_SIZE_def)
  note all = c1_generators_permute [OF len, of rand_c "srand_c 42"]
  from all obtain xs where
    sq: "generate_sequential_indices ARRAY_SIZE (replicate 524288 0) = Some xs"
        "valid_index_sequence ARRAY_SIZE xs"
    by (elim exE conjE) (rule that; assumption)
  from all obtain ys r' where
    rn: "generate_random_indices ARRAY_SIZE rand_c (replicate 524288 0, srand_c 42) = Some (ys, r')"
        "valid_index_sequence ARRAY_SIZE ys"
    by (elim exE conjE) (rule that; assumption)
  have d: "8 dvd (24::nat)" "(24::nat) < ARRAY_SIZE" by (simp_all add: ARRAY_SIZE_def)
  have 1: "\<exists>xs. generate_sequential_indices ARRAY_SIZE (replicate 524288 0) = Some xs \<and>
      length xs = 524288 \<and> distinct xs \<and> 24 \<in> set xs \<and> 8 dvd (24::nat) \<and> 24 < ARRAY_SIZE"
    using sq(1) props [OF sq(2)] d by (intro exI [of _ xs]) simp
  have 2: "\<exists>xs r'. generate_random_indices ARRAY_SIZE rand_c (replicate 524288 0, srand_c 42)
        = Some (xs, r') \<and> length xs = 524288 \<and> distinct xs \<and> 24 \<in> set xs"
    using rn(1) props [OF rn(2)] by (intro exI [of _ ys] exI [of _ r']) simp
  show ?thesis by (intro conjI) (rule len 1 2)+
qed

text \<open>
  Claim C6. The Interleaved generator writes \<open>offset[2i] = i * 8\<close> and
  \<open>offset[2i + 1] = (COUNT / 2 + i) * 8\<close> for every \<open>i < COUNT / 2\<close>; the even positions
  stay below the half boundary \<open>(COUNT / 2) * 8\<close>, the odd positions are at or above it
  and below \<open>ARRAY_SIZE\<close>, and both subsequences are ascending.
\<close>

theorem c6_interleaved:
  assumes "length ix0 = COUNT"
  shows "\<exists>il.
           generate_interleaved_indices ARRAY_SIZE ix0 = Some il \<and>
           length il = COUNT \<and>
           (\<forall>i<COUNT div 2. il ! (2 * i) = i * 8 \<and> il ! (2 * i + 1) = (COUNT div 2 + i) * 8) \<and>
           (\<forall>i<COUNT div 2. il ! (2 * i) < (COUNT div 2) * 8 \<and>
                             (COUNT div 2) * 8 \<le> il ! (2 * i + 1)) \<and>
           (\<forall>i j. i < j \<and> j < COUNT div 2 \<longrightarrow>
                    il ! (2 * i) < il ! (2 * j) \<and> il ! (2 * i + 1) < il ! (2 * j + 1)) \<and>
           (\<forall>i<COUNT div 2. il ! (2 * i + 1) < ARRAY_SIZE)"
proof -
  let ?il = "map (\<lambda>p. if even p then (p div 2) * 8 else (COUNT div 2 + p div 2) * 8) [0..<COUNT]"
  have gen: "generate_interleaved_indices ARRAY_SIZE ix0 = Some ?il"
    using assms COUNT_even by (rule interleaved_result)
  note sh = interleaved_shape [OF COUNT_even, unfolded COUNT_times_8]
  show ?thesis
    by (intro exI [of _ ?il] conjI) (rule gen sh)+
qed

text \<open>
  The same on an array of 524288 zeros, read at positions 4 to 7.
\<close>

theorem c6_interleaved_witness:
  "length (replicate 524288 (0::nat)) = COUNT \<and>
   (\<exists>il. generate_interleaved_indices ARRAY_SIZE (replicate 524288 0) = Some il \<and>
      il ! 6 = 24 \<and> il ! 7 = 2097176 \<and> il ! 6 < 2097152 \<and> 2097152 \<le> il ! 7 \<and>
      il ! 4 < il ! 6 \<and> il ! 5 < il ! 7 \<and> il ! 7 < ARRAY_SIZE)"
proof -
  have len: "length (replicate 524288 (0::nat)) = COUNT"
    by (simp add: ARRAY_SIZE_def)
  from c6_interleaved [OF len] obtain il where
    r: "generate_interleaved_indices ARRAY_SIZE (replicate 524288 0) = Some il"
       "\<forall>i<COUNT div 2. il ! (2 * i) = i * 8 \<and> il ! (2 * i + 1) = (COUNT div 2 + i) * 8"
    by blast
  have "(3::nat) < COUNT div 2" "(2::nat) < COUNT div 2" by (simp_all add: ARRAY_SIZE_def)
  with r(2) have "il ! (2 * 3) = 3 * 8 \<and> il ! (2 * 3 + 1) = (COUNT div 2 + 3) * 8"
    "il ! (2 * 2) = 2 * 8 \<and> il ! (2 * 2 + 1) = (COUNT div 2 + 2) * 8" by blast+
  then have v: "il ! 6 = 24" "il ! 7 = 2097176" "il ! 4 = 16" "il ! 5 = 2097168"
    by (simp_all add: ARRAY_SIZE_def)
  then have o: "il ! 6 < 2097152" "2097152 \<le> il ! 7" "il ! 4 < il ! 6" "il ! 5 < il ! 7"
    "il ! 7 < ARRAY_SIZE"
    by (simp_all add: ARRAY_SIZE_def)
  show ?thesis
    by (intro conjI exI [of _ il]) (rule len r(1) v o)+
qed

text \<open>
  Claim C7. The Bouncing generator writes \<open>offset[i] = (i / 2) * 8\<close> at even \<open>i\<close> and
  \<open>offset[i] = (COUNT - 1 - i / 2) * 8\<close> at odd \<open>i\<close>; \<open>offset[0] = 0\<close>,
  \<open>offset[1] = (COUNT - 1) * 8\<close>; the even positions increase, the odd positions
  decrease, every even position is below every odd one, and the last two positions hold the
  two middle offsets \<open>(COUNT / 2 - 1) * 8\<close> and \<open>(COUNT / 2) * 8\<close>.
\<close>

theorem c7_bouncing:
  assumes "length ix0 = COUNT"
  shows "\<exists>bo.
           generate_bouncing_indices ARRAY_SIZE ix0 = Some bo \<and>
           length bo = COUNT \<and>
           (\<forall>i<COUNT. bo ! i = (if even i then (i div 2) * 8 else (COUNT - 1 - i div 2) * 8)) \<and>
           bo ! 0 = 0 \<and> bo ! 1 = (COUNT - 1) * 8 \<and>
           (\<forall>i j. even i \<and> even j \<and> i < j \<and> j < COUNT \<longrightarrow> bo ! i < bo ! j) \<and>
           (\<forall>i j. odd i \<and> odd j \<and> i < j \<and> j < COUNT \<longrightarrow> bo ! j < bo ! i) \<and>
           (\<forall>i j. even i \<and> odd j \<and> i < COUNT \<and> j < COUNT \<longrightarrow> bo ! i < bo ! j) \<and>
           bo ! (COUNT - 2) = (COUNT div 2 - 1) * 8 \<and> bo ! (COUNT - 1) = (COUNT div 2) * 8"
proof -
  let ?bo = "map (\<lambda>i. if i mod 2 = 0 then (i div 2) * 8 else (COUNT - 1 - i div 2) * 8) [0..<COUNT]"
  have gen: "generate_bouncing_indices ARRAY_SIZE ix0 = Some ?bo"
    using assms by (rule bouncing_result)
  define bo where "bo = ?bo"
  note sh = bouncing_shape [of COUNT, folded bo_def]
  have nth: "bo ! i = (if even i then (i div 2) * 8 else (COUNT - 1 - i div 2) * 8)"
    if "i < COUNT" for i
    using sh(2) that by blast
  have 0: "bo ! 0 = 0"
    using nth [of 0] by (simp add: ARRAY_SIZE_def)
  have 1: "bo ! 1 = (COUNT - 1) * 8"
    using nth [of 1] by (simp add: ARRAY_SIZE_def)
  have 2: "bo ! (COUNT - 2) = (COUNT div 2 - 1) * 8"
    using nth [of "COUNT - 2"] by (simp add: ARRAY_SIZE_def)
  have 3: "bo ! (COUNT - 1) = (COUNT div 2) * 8"
    using nth [of "COUNT - 1"] by (simp add: ARRAY_SIZE_def)
  show ?thesis
    by (intro exI [of _ bo] conjI) (rule gen [folded bo_def] sh 0 1 2 3)+
qed

text \<open>
  The same on an array of 524288 zeros, read at the first four and the last two positions.
\<close>

theorem c7_bouncing_witness:
  "length (replicate 524288 (0::nat)) = COUNT \<and>
   (\<exists>bo. generate_bouncing_indices ARRAY_SIZE (replicate 524288 0) = Some bo \<and>
      bo ! 0 = 0 \<and> bo ! 1 = 4194296 \<and> bo ! 2 = 8 \<and> bo ! 3 = 4194288 \<and>
      bo ! 0 < bo ! 2 \<and> bo ! 3 < bo ! 1 \<and> bo ! 2 < bo ! 3 \<and>
      bo ! 524286 = 2097144 \<and> bo ! 524287 = 2097152)"
proof -
  have len: "length (replicate 524288 (0::nat)) = COUNT"
    by (simp add: ARRAY_SIZE_def)
  from c7_bouncing [OF len] obtain bo where
    r: "generate_bouncing_indices ARRAY_SIZE (replicate 524288 0) = Some bo"
       "\<forall>i<COUNT. bo ! i = (if even i then (i div 2) * 8 else (COUNT - 1 - i div 2) * 8)"
       "bo ! 0 = 0" "bo ! 1 = (COUNT - 1) * 8"
       "bo ! (COUNT - 2) = (COUNT div 2 - 1) * 8" "bo ! (COUNT - 1) = (COUNT div 2) * 8"
    by (elim exE conjE) (rule that; assumption)
  have "(2::nat) < COUNT" "(3::nat) < COUNT" by (simp_all add: ARRAY_SIZE_def)
  with r(2) have "bo ! 2 = (if even (2::nat) then (2 div 2) * 8 else (COUNT - 1 - 2 div 2) * 8)"
    "bo ! 3 = (if even (3::nat) then (3 div 2) * 8 else (COUNT - 1 - 3 div 2) * 8)" by blast+
  then have v: "bo ! 2 = 8" "bo ! 3 = 4194288" by (simp_all add: ARRAY_SIZE_def)
  have w: "bo ! 1 = 4194296" "bo ! 524286 = 2097144" "bo ! 524287 = 2097152"
    using r(4,5,6) by (simp_all add: ARRAY_SIZE_def)
  have o: "bo ! 0 < bo ! 2" "bo ! 3 < bo ! 1" "bo ! 2 < bo ! 3"
    using v w r(3) by simp_all
  show ?thesis
    by (intro conjI exI [of _ bo]) (rule len r(1) r(3) v w o)+
qed

section \<open>The claims about the benchmark\<close>

text \<open>
  Claim C2. The statistic that \<^verbatim>\<open>benchmark_pattern\<close> returns is the element at index
  \<open>NUM_ITERATIONS / 2 = 5\<close> of its ten timing samples sorted ascending, the sixth smallest,
  with no averaging. The samples are the ten differences of the timer readings around the
  timed passes, in milliseconds; this holds for each of the five generators on a buffer
  and an index array of the allocated sizes, whatever the timer returns. The reduction
  itself, \<open>median_time\<close>, returns the element at index 5 of the sorted list for any ten
  samples, and 5 for the samples 5, 1, 4, 2, 8, 9, 3, 7, 6, 0. Timing samples are
  \<^verbatim>\<open>double\<close> values that are never NaN, so they are linearly ordered.
\<close>

theorem c2_median_upper_middle:
  fixes tms :: "real list"
  shows "NUM_ITERATIONS div 2 = 5 \<and>
         (length tms = NUM_ITERATIONS \<longrightarrow> median_time tms = Some (sort tms ! 5)) \<and>
         median_time [5, 1, 4, 2, 8, 9, 3, 7, 6, 0 :: real] = Some 5 \<and>
         length (timing_samples now (ticks st)) = 10 \<and>
         (\<forall>i<10. timing_samples now (ticks st) ! i =
                    (now (ticks st + 2 * i + 1) - now (ticks st + 2 * i)) * 1000) \<and>
         (length (arr st) = ARRAY_SIZE \<and> length (indices st) = COUNT \<longrightarrow>
            (\<exists>st'. benchmark_pattern ARRAY_SIZE now
                      (on_indices (generate_sequential_indices ARRAY_SIZE)) name st
               = Some (sort (timing_samples now (ticks st)) ! 5, st')) \<and>
            (\<exists>st'. benchmark_pattern ARRAY_SIZE now
                      (on_indices (generate_backward_indices ARRAY_SIZE)) name st
               = Some (sort (timing_samples now (ticks st)) ! 5, st')) \<and>
            (\<exists>st'. benchmark_pattern ARRAY_SIZE now
                      (on_indices (generate_interleaved_indices ARRAY_SIZE)) name st
               = Some (sort (timing_samples now (ticks st)) ! 5, st')) \<and>
            (\<exists>st'. benchmark_pattern ARRAY_SIZE now
                      (on_indices (generate_bouncing_indices ARRAY_SIZE)) name st
               = Some (sort (timing_samples now (ticks st)) ! 5, st')) \<and>
            (\<exists>st'. benchmark_pattern ARRAY_SIZE now
                      (on_indices_rng (generate_random_indices ARRAY_SIZE rand)) name st
               = Some (sort (timing_samples now (ticks st)) ! 5, st')))"
proof -
  have five: "NUM_ITERATIONS div 2 = 5" by (simp add: NUM_ITERATIONS_def)
  have any: "length tms = NUM_ITERATIONS \<longrightarrow> median_time tms = Some (sort tms ! 5)"
    using median_time_result [of tms] five by simp
  have "length [5, 1, 4, 2, 8, 9, 3, 7, 6, 0 :: real] = NUM_ITERATIONS"
    by (simp add: NUM_ITERATIONS_def)
  from median_time_result [OF this] five
  have ex: "median_time [5, 1, 4, 2, 8, 9, 3, 7, 6, 0 :: real] = Some 5" by simp
  have len: "length (timing_samples now (ticks st)) = 10"
    by (simp add: timing_samples_def NUM_ITERATIONS_def)
  have nth: "\<forall>i<10. timing_samples now (ticks st) ! i =
                    (now (ticks st + 2 * i + 1) - now (ticks st + 2 * i)) * 1000"
    by (simp add: timing_samples_def NUM_ITERATIONS_def)
  have bench: "length (arr st) = ARRAY_SIZE \<and> length (indices st) = COUNT \<longrightarrow>
            (\<exists>st'. benchmark_pattern ARRAY_SIZE now
                      (on_indices (generate_sequential_indices ARRAY_SIZE)) name st
               = Some (sort (timing_samples now (ticks st)) ! 5, st')) \<and>
            (\<exists>st'. benchmark_pattern ARRAY_SIZE now
                      (on_indices (generate_backward_indices ARRAY_SIZE)) name st
               = Some (sort (timing_samples now (ticks st)) ! 5, st')) \<and>
            (\<exists>st'. benchmark_pattern ARRAY_SIZE now
                      (on_indices (generate_interleaved_indices ARRAY_SIZE)) name st
               = Some (sort (timing_samples now (ticks st)) ! 5, st')) \<and>
            (\<exists>st'. benchmark_pattern ARRAY_SIZE now
                      (on_indices (generate_bouncing_indices ARRAY_SIZE)) name st
               = Some (sort (timing_samples now (ticks st)) ! 5, st')) \<and>
            (\<exists>st'. benchmark_pattern ARRAY_SIZE now
                      (on_indices_rng (generate_random_indices ARRAY_SIZE rand)) name st
               = Some (sort (timing_samples now (ticks st)) ! 5, st'))"
  proof (intro impI)
    assume "length (arr st) = ARRAY_SIZE \<and> length (indices st) = COUNT"
    then have l: "length (arr st) = ARRAY_SIZE" "length (indices st) = COUNT" by simp_all
    note each = benchmark_returns_median [OF l COUNT_even COUNT_pos COUNT_small,
        unfolded five]
    show "(\<exists>st'. benchmark_pattern ARRAY_SIZE now
                      (on_indices (generate_sequential_indices ARRAY_SIZE)) name st
               = Some (sort (timing_samples now (ticks st)) ! 5, st')) \<and>
            (\<exists>st'. benchmark_pattern ARRAY_SIZE now
                      (on_indices (generate_backward_indices ARRAY_SIZE)) name st
               = Some (sort (timing_samples now (ticks st)) ! 5, st')) \<and>
            (\<exists>st'. benchmark_pattern ARRAY_SIZE now
                      (on_indices (generate_interleaved_indices ARRAY_SIZE)) name st
               = Some (sort (timing_samples now (ticks st)) ! 5, st')) \<and>
            (\<exists>st'. benchmark_pattern ARRAY_SIZE now
                      (on_indices (generate_bouncing_indices ARRAY_SIZE)) name st
               = Some (sort (timing_samples now (ticks st)) ! 5, st')) \<and>
            (\<exists>st'. benchmark_pattern ARRAY_SIZE now
                      (on_indices_rng (generate_random_indices ARRAY_SIZE rand)) name st
               = Some (sort (timing_samples now (ticks st)) ! 5, st'))"
      by (intro conjI) (rule each)+
  qed
  show ?thesis
    by (rule conjI [OF five conjI [OF any conjI [OF ex conjI [OF len conjI [OF nth bench]]]]])
qed

text \<open>
  The reduction for the samples 10, 9, ..., 1, where the sixth smallest is 6, and the
  benchmark of the Random pattern under a timer that makes the ten samples
  5, 1, 4, 2, 8, 9, 3, 7, 6, 0: it returns 5.
\<close>

theorem c2_median_upper_middle_witness:
  "length [10, 9, 8, 7, 6, 5, 4, 3, 2, 1 :: real] = NUM_ITERATIONS \<and>
   median_time [10, 9, 8, 7, 6, 5, 4, 3, 2, 1 :: real] = Some 6 \<and>
   length (arr \<lparr>arr = replicate 4194304 \<lparr>a = 1, b = 2, c = 3, d = 4, e = 5, f = 6, g = 7, h = 8\<rparr>,
                indices = replicate 524288 0, rng = srand_c 42, ticks = 0, stdout = []\<rparr>)
     = ARRAY_SIZE \<and>
   length (indices \<lparr>arr = replicate 4194304 \<lparr>a = 1, b = 2, c = 3, d = 4, e = 5, f = 6, g = 7, h = 8\<rparr>,
                indices = replicate 524288 0, rng = srand_c 42, ticks = 0, stdout = []\<rparr>)
     = COUNT \<and>
   timing_samples (sample_clock [5, 1, 4, 2, 8, 9, 3, 7, 6, 0]) 0 = [5, 1, 4, 2, 8, 9, 3, 7, 6, 0] \<and>
   (\<exists>st'. benchmark_pattern ARRAY_SIZE (sample_clock [5, 1, 4, 2, 8, 9, 3, 7, 6, 0])
            (on_indices_rng (generate_random_indices ARRAY_SIZE rand_c)) ''Random''
            \<lparr>arr = replicate 4194304 \<lparr>a = 1, b = 2, c = 3, d = 4, e = 5, f = 6, g = 7, h = 8\<rparr>,
             indices = replicate 524288 0, rng = srand_c 42, ticks = 0, stdout = []\<rparr>
          = Some (5, st'))"
proof -
  let ?st = "\<lparr>arr = replicate 4194304 \<lparr>a = 1, b = 2, c = 3, d = 4, e = 5, f = 6, g = 7, h = 8\<rparr>,
              indices = replicate 524288 (0::nat), rng = srand_c 42, ticks = 0, stdout = []\<rparr>"
  let ?now = "sample_clock [5, 1, 4, 2, 8, 9, 3, 7, 6, 0]"
  note w = c2_median_upper_middle [where tms = "[10, 9, 8, 7, 6, 5, 4, 3, 2, 1]"
      and st = ?st and now = ?now and name = "''Random''" and rand = rand_c]
  have 1: "length [10, 9, 8, 7, 6, 5, 4, 3, 2, 1 :: real] = NUM_ITERATIONS"
    by (simp add: NUM_ITERATIONS_def)
  from w have "length [10, 9, 8, 7, 6, 5, 4, 3, 2, 1 :: real] = NUM_ITERATIONS \<longrightarrow>
      median_time [10, 9, 8, 7, 6, 5, 4, 3, 2, 1 :: real]
        = Some (sort [10, 9, 8, 7, 6, 5, 4, 3, 2, 1] ! 5)"
    by (elim conjE)
  with 1 have 2: "median_time [10, 9, 8, 7, 6, 5, 4, 3, 2, 1 :: real] = Some 6" by simp
  have 3: "length (arr ?st) = ARRAY_SIZE" by (simp add: ARRAY_SIZE_def)
  have 4: "length (indices ?st) = COUNT" by (simp add: ARRAY_SIZE_def)
  have 5: "timing_samples ?now 0 = [5, 1, 4, 2, 8, 9, 3, 7, 6, 0]"
    by (rule sample_clock_samples)
  have t0: "ticks ?st = 0" by simp
  from w have "length (arr ?st) = ARRAY_SIZE \<and> length (indices ?st) = COUNT \<longrightarrow>
      (\<exists>st'. benchmark_pattern ARRAY_SIZE ?now
                (on_indices (generate_sequential_indices ARRAY_SIZE)) ''Random'' ?st
         = Some (sort (timing_samples ?now (ticks ?st)) ! 5, st')) \<and>
      (\<exists>st'. benchmark_pattern ARRAY_SIZE ?now
                (on_indices (generate_backward_indices ARRAY_SIZE)) ''Random'' ?st
         = Some (sort (timing_samples ?now (ticks ?st)) ! 5, st')) \<and>
      (\<exists>st'. benchmark_pattern ARRAY_SIZE ?now
                (on_indices (generate_interleaved_indices ARRAY_SIZE)) ''Random'' ?st
         = Some (sort (timing_samples ?now (ticks ?st)) ! 5, st')) \<and>
      (\<exists>st'. benchmark_pattern ARRAY_SIZE ?now
                (on_indices (generate_bouncing_indices ARRAY_SIZE)) ''Random'' ?st
         = Some (sort (timing_samples ?now (ticks ?st)) ! 5, st')) \<and>
      (\<exists>st'. benchmark_pattern ARRAY_SIZE ?now
                (on_indices_rng (generate_random_indices ARRAY_SIZE rand_c)) ''Random'' ?st
         = Some (sort (timing_samples ?now (ticks ?st)) ! 5, st'))"
    by (elim conjE)
  with 3 4 have "\<exists>st'. benchmark_pattern ARRAY_SIZE ?now
                (on_indices_rng (generate_random_indices ARRAY_SIZE rand_c)) ''Random'' ?st
         = Some (sort (timing_samples ?now (ticks ?st)) ! 5, st')"
    by (elim impE conjE) (rule conjI)
  then have 6: "\<exists>st'. benchmark_pattern ARRAY_SIZE ?now
                (on_indices_rng (generate_random_indices ARRAY_SIZE rand_c)) ''Random'' ?st
         = Some (5, st')"
    unfolding t0 5 by simp
  show ?thesis
    by (rule conjI [OF 1 conjI [OF 2 conjI [OF 3 conjI [OF 4 conjI [OF 5 6]]]]])
qed

text \<open>
  Claim C8. With a buffer of \<open>ARRAY_SIZE\<close> records, one pass of the read loop over any
  valid index sequence (each generator writes one, see C1) returns, and the 64-bit
  accumulator holds the exact sum of the \<open>COUNT\<close> fields \<open>a\<close> it has read: it never wraps,
  \<open>COUNT * (2^32 - 1)\<close> being below \<open>2^64\<close>. Over the Sequential sequence the sum is the
  reference sum of field \<open>a\<close> of every 8th record.
\<close>

theorem c8_accumulator_exact:
  assumes "length ar = ARRAY_SIZE" and "valid_index_sequence ARRAY_SIZE ix"
    and "length ix0 = COUNT"
  shows "COUNT * (2 ^ 32 - 1) < (2::nat) ^ 64 \<and>
         (\<exists>s. read_sum ar ix COUNT = Some s \<and>
              unat s = (\<Sum>j<COUNT. unat (a (ar ! (ix ! j))))) \<and>
         (\<exists>sq s. generate_sequential_indices ARRAY_SIZE ix0 = Some sq \<and>
              read_sum ar sq COUNT = Some s \<and>
              unat s = (\<Sum>k<COUNT. unat (a (ar ! (k * 8)))))"
proof (intro conjI)
  show "COUNT * (2 ^ 32 - 1) < (2::nat) ^ 64" by (simp add: ARRAY_SIZE_def)
  show "\<exists>s. read_sum ar ix COUNT = Some s \<and> unat s = (\<Sum>j<COUNT. unat (a (ar ! (ix ! j))))"
    using assms(2,1) COUNT_small by (rule read_sum_valid)
  let ?sq = "map (\<lambda>i. i * 8) [0..<COUNT]"
  have gen: "generate_sequential_indices ARRAY_SIZE ix0 = Some ?sq"
    using assms(3) by (rule sequential_result)
  from read_sum_valid [OF sequential_valid assms(1) COUNT_small]
  obtain s where s: "read_sum ar ?sq COUNT = Some s"
    "unat s = (\<Sum>j<COUNT. unat (a (ar ! (?sq ! j))))" by blast
  have "unat s = (\<Sum>k<COUNT. unat (a (ar ! (k * 8))))"
    using s(2) sum_stride [of "\<lambda>x. unat (a (ar ! x))" COUNT] by (simp only:)
  with gen s(1) show "\<exists>sq s. generate_sequential_indices ARRAY_SIZE ix0 = Some sq \<and>
              read_sum ar sq COUNT = Some s \<and>
              unat s = (\<Sum>k<COUNT. unat (a (ar ! (k * 8))))" by blast
qed

text \<open>
  The same for a buffer whose records all hold the largest \<^verbatim>\<open>uint32_t\<close> in field \<open>a\<close>:
  the accumulator ends at \<open>524288 * 4294967295\<close>.
\<close>

theorem c8_accumulator_exact_witness:
  "length (replicate 4194304 \<lparr>a = 4294967295, b = 0, c = 0, d = 0, e = 0, f = 0, g = 0, h = 0\<rparr>)
     = ARRAY_SIZE \<and>
   valid_index_sequence ARRAY_SIZE (map (\<lambda>i. i * 8) [0..<COUNT]) \<and>
   length (replicate 524288 (0::nat)) = COUNT \<and>
   (\<exists>sq s. generate_sequential_indices ARRAY_SIZE (replicate 524288 0) = Some sq \<and>
      read_sum (replicate 4194304 \<lparr>a = 4294967295, b = 0, c = 0, d = 0, e = 0, f = 0, g = 0, h = 0\<rparr>)
        sq COUNT = Some s \<and>
      unat s = 524288 * 4294967295)"
proof -
  let ?x = "\<lparr>a = 4294967295, b = 0, c = 0, d = 0, e = 0, f = 0, g = 0, h = 0\<rparr>"
  let ?ar = "replicate 4194304 ?x"
  have 1: "length ?ar = ARRAY_SIZE" by (simp add: ARRAY_SIZE_def)
  have 2: "valid_index_sequence ARRAY_SIZE (map (\<lambda>i. i * 8) [0..<COUNT])"
    by (rule sequential_valid)
  have 3: "length (replicate 524288 (0::nat)) = COUNT" by (simp add: ARRAY_SIZE_def)
  from c8_accumulator_exact [OF 1 2 3] obtain sq s where
    r: "generate_sequential_indices ARRAY_SIZE (replicate 524288 0) = Some sq"
       "read_sum ?ar sq COUNT = Some s"
       "unat s = (\<Sum>k<COUNT. unat (a (?ar ! (k * 8))))"
    by (elim exE conjE) (rule that; assumption)
  have "(\<Sum>k<COUNT. unat (a (?ar ! (k * 8)))) = (\<Sum>k<COUNT. 4294967295)"
  proof (rule sum.cong)
    fix k assume "k \<in> {..<COUNT}"
    then have "k * 8 < 4194304" by (simp add: ARRAY_SIZE_def)
    then show "unat (a (?ar ! (k * 8))) = 4294967295" by simp
  qed simp
  also have "\<dots> = 524288 * 4294967295" by (simp add: ARRAY_SIZE_def)
  finally have 4: "unat s = 524288 * 4294967295" using r(3) by simp
  show ?thesis
    by (intro conjI exI [of _ sq] exI [of _ s]) (rule 1 2 3 r(1) r(2) 4)+
qed

text \<open>
  Claim C3. The Random generator is deterministic. From the same state of \<^verbatim>\<open>rand()\<close> it
  writes the same sequence whatever the index array held before, and that sequence is the
  Fisher-Yates shuffle of the Sequential sequence driven by \<^verbatim>\<open>rand()\<close>. Two runs of the
  program, with different timer readings and different content of the fresh memory, end
  with the same index sequence: the shuffle started from the state that \<^verbatim>\<open>srand(42)\<close> sets,
  no other call of \<^verbatim>\<open>rand()\<close> coming in between.
\<close>

theorem c3_random_deterministic:
  assumes "length ix1 = COUNT" and "length ix2 = COUNT"
    and "length ar1 = ARRAY_SIZE" and "length ar2 = ARRAY_SIZE"
  shows "generate_random_indices ARRAY_SIZE rand (ix1, r) =
           generate_random_indices ARRAY_SIZE rand (ix2, r) \<and>
         generate_random_indices ARRAY_SIZE rand (ix1, r) =
           Some (fisher_yates rand (COUNT - 1) (map (\<lambda>i. i * 8) [0..<COUNT], r)) \<and>
         (\<exists>st1 st2.
            run_benchmarks ARRAY_SIZE srand rand now1 ar1 ix1 = Some st1 \<and>
            run_benchmarks ARRAY_SIZE srand rand now2 ar2 ix2 = Some st2 \<and>
            indices st1 = indices st2 \<and>
            indices st1 = fst (fisher_yates rand (COUNT - 1)
                                 (map (\<lambda>i. i * 8) [0..<COUNT], srand 42)))"
proof -
  have 1: "generate_random_indices ARRAY_SIZE rand (ix1, r) =
           Some (fisher_yates rand (COUNT - 1) (map (\<lambda>i. i * 8) [0..<COUNT], r))"
    using assms(1) COUNT_pos by (rule random_result)
  have 2: "generate_random_indices ARRAY_SIZE rand (ix2, r) =
           Some (fisher_yates rand (COUNT - 1) (map (\<lambda>i. i * 8) [0..<COUNT], r))"
    using assms(2) COUNT_pos by (rule random_result)
  from run_benchmarks_result [OF assms(3,1) COUNT_even COUNT_pos COUNT_small, of rand srand now1]
  obtain st1 where r1: "run_benchmarks ARRAY_SIZE srand rand now1 ar1 ix1 = Some st1"
    "indices st1 = fst (fisher_yates rand (COUNT - 1) (map (\<lambda>i. i * 8) [0..<COUNT], srand 42))"
    by (elim exE conjE) (rule that; assumption)
  from run_benchmarks_result [OF assms(4,2) COUNT_even COUNT_pos COUNT_small, of rand srand now2]
  obtain st2 where r2: "run_benchmarks ARRAY_SIZE srand rand now2 ar2 ix2 = Some st2"
    "indices st2 = fst (fisher_yates rand (COUNT - 1) (map (\<lambda>i. i * 8) [0..<COUNT], srand 42))"
    by (elim exE conjE) (rule that; assumption)
  have 3: "indices st1 = indices st2" using r1(2) r2(2) by (simp only:)
  have 4: "generate_random_indices ARRAY_SIZE rand (ix1, r) =
           generate_random_indices ARRAY_SIZE rand (ix2, r)"
    using 1 2 by (simp only:)
  show ?thesis
    by (intro conjI exI [of _ st1] exI [of _ st2]) (rule 1 3 4 r1 r2)+
qed

text \<open>
  The same for two runs with the sample generator of the C standard, the timer of the
  second run three times as fast, the fresh memory filled differently.
\<close>

theorem c3_random_deterministic_witness:
  "length (replicate 524288 (0::nat)) = COUNT \<and>
   length (replicate 524288 (7::nat)) = COUNT \<and>
   length (replicate 4194304 \<lparr>a = 0, b = 0, c = 0, d = 0, e = 0, f = 0, g = 0, h = 0\<rparr>)
     = ARRAY_SIZE \<and>
   length (replicate 4194304 \<lparr>a = 1, b = 1, c = 1, d = 1, e = 1, f = 1, g = 1, h = 1\<rparr>)
     = ARRAY_SIZE \<and>
   generate_random_indices ARRAY_SIZE rand_c (replicate 524288 0, srand_c 42) =
     generate_random_indices ARRAY_SIZE rand_c (replicate 524288 7, srand_c 42) \<and>
   (\<exists>st1 st2.
      run_benchmarks ARRAY_SIZE srand_c rand_c (\<lambda>k. real k)
        (replicate 4194304 \<lparr>a = 0, b = 0, c = 0, d = 0, e = 0, f = 0, g = 0, h = 0\<rparr>)
        (replicate 524288 0) = Some st1 \<and>
      run_benchmarks ARRAY_SIZE srand_c rand_c (\<lambda>k. 3 * real k)
        (replicate 4194304 \<lparr>a = 1, b = 1, c = 1, d = 1, e = 1, f = 1, g = 1, h = 1\<rparr>)
        (replicate 524288 7) = Some st2 \<and>
      indices st1 = indices st2)"
proof -
  let ?ar1 = "replicate 4194304 \<lparr>a = 0, b = 0, c = 0, d = 0, e = 0, f = 0, g = 0, h = 0\<rparr>"
  let ?ar2 = "replicate 4194304 \<lparr>a = 1, b = 1, c = 1, d = 1, e = 1, f = 1, g = 1, h = 1\<rparr>"
  let ?ix1 = "replicate 524288 (0::nat)"
  let ?ix2 = "replicate 524288 (7::nat)"
  have 1: "length ?ix1 = COUNT" by (simp add: ARRAY_SIZE_def)
  have 2: "length ?ix2 = COUNT" by (simp add: ARRAY_SIZE_def)
  have 3: "length ?ar1 = ARRAY_SIZE" by (simp add: ARRAY_SIZE_def)
  have 4: "length ?ar2 = ARRAY_SIZE" by (simp add: ARRAY_SIZE_def)
  note w = c3_random_deterministic [where ?ix1.0 = ?ix1 and ?ix2.0 = ?ix2 and ?ar1.0 = ?ar1
      and ?ar2.0 = ?ar2 and rand = rand_c and srand = srand_c and r = "srand_c 42"
      and ?now1.0 = "\<lambda>k. real k" and ?now2.0 = "\<lambda>k. 3 * real k", OF 1 2 3 4]
  from w have eq: "generate_random_indices ARRAY_SIZE rand_c (?ix1, srand_c 42) =
     generate_random_indices ARRAY_SIZE rand_c (?ix2, srand_c 42)"
    by (rule conjunct1)
  from w obtain st1 st2 where
    r: "run_benchmarks ARRAY_SIZE srand_c rand_c (\<lambda>k. real k) ?ar1 ?ix1 = Some st1"
       "run_benchmarks ARRAY_SIZE srand_c rand_c (\<lambda>k. 3 * real k) ?ar2 ?ix2 = Some st2"
       "indices st1 = indices st2"
    by (elim exE conjE) (rule that; assumption)
  have runs: "\<exists>st1 st2.
      run_benchmarks ARRAY_SIZE srand_c rand_c (\<lambda>k. real k) ?ar1 ?ix1 = Some st1 \<and>
      run_benchmarks ARRAY_SIZE srand_c rand_c (\<lambda>k. 3 * real k) ?ar2 ?ix2 = Some st2 \<and>
      indices st1 = indices st2"
    by (intro exI [of _ st1] exI [of _ st2] conjI) (rule r)+
  show ?thesis
    by (rule conjI [OF 1 conjI [OF 2 conjI [OF 3 conjI [OF 4 conjI [OF eq runs]]]]])
qed

text \<open>
  Claim C9. When one of the two allocations returns a null pointer, \<^verbatim>\<open>main\<close> writes the
  message to standard error, nothing to standard output, and returns 1 with no benchmark
  state ever built. When both succeed (blocks of the requested sizes), the run of the five
  benchmarks returns, with no access out of range anywhere, and \<^verbatim>\<open>main\<close> returns 0.
\<close>

theorem c9_exit_status:
  "(malloc_arr = None \<or> malloc_indices = None \<longrightarrow>
      main ARRAY_SIZE srand rand now malloc_arr malloc_indices =
        Some \<lparr>exit_status = 1, written_stdout = [],
              written_stderr = [''Memory allocation failed''], final = None\<rparr>) \<and>
   (\<forall>ar0 ix0. malloc_arr = Some ar0 \<and> malloc_indices = Some ix0 \<and>
        length ar0 = ARRAY_SIZE \<and> length ix0 = COUNT \<longrightarrow>
      (\<exists>st. run_benchmarks ARRAY_SIZE srand rand now ar0 ix0 = Some st \<and>
            main ARRAY_SIZE srand rand now malloc_arr malloc_indices =
              Some \<lparr>exit_status = 0, written_stdout = stdout st,
                    written_stderr = [], final = Some st\<rparr>))"
proof (intro conjI impI allI)
  assume "malloc_arr = None \<or> malloc_indices = None"
  then show "main ARRAY_SIZE srand rand now malloc_arr malloc_indices =
        Some \<lparr>exit_status = 1, written_stdout = [],
              written_stderr = [''Memory allocation failed''], final = None\<rparr>"
    by (auto simp: main_def split: option.splits)
next
  fix ar0 ix0
  assume A: "malloc_arr = Some ar0 \<and> malloc_indices = Some ix0 \<and>
        length ar0 = ARRAY_SIZE \<and> length ix0 = COUNT"
  then have len: "length ar0 = ARRAY_SIZE" "length ix0 = COUNT" by simp_all
  from run_benchmarks_result [OF len COUNT_even COUNT_pos COUNT_small, of rand srand now]
  obtain st where st: "run_benchmarks ARRAY_SIZE srand rand now ar0 ix0 = Some st" by blast
  with A have "main ARRAY_SIZE srand rand now malloc_arr malloc_indices =
              Some \<lparr>exit_status = 0, written_stdout = stdout st,
                    written_stderr = [], final = Some st\<rparr>"
    by (simp add: main_def)
  with st show "\<exists>st. run_benchmarks ARRAY_SIZE srand rand now ar0 ix0 = Some st \<and>
            main ARRAY_SIZE srand rand now malloc_arr malloc_indices =
              Some \<lparr>exit_status = 0, written_stdout = stdout st,
                    written_stderr = [], final = Some st\<rparr>" by blast
qed

text \<open>
  Both cases at concrete results of \<^verbatim>\<open>malloc\<close>.
\<close>

theorem c9_exit_status_witness:
  "main ARRAY_SIZE srand_c rand_c (\<lambda>k. real k)
     (Some (replicate 4194304 \<lparr>a = 0, b = 0, c = 0, d = 0, e = 0, f = 0, g = 0, h = 0\<rparr>)) None
     = Some \<lparr>exit_status = 1, written_stdout = [],
             written_stderr = [''Memory allocation failed''], final = None\<rparr> \<and>
   length (replicate 4194304 \<lparr>a = 0, b = 0, c = 0, d = 0, e = 0, f = 0, g = 0, h = 0\<rparr>)
     = ARRAY_SIZE \<and>
   length (replicate 524288 (0::nat)) = COUNT \<and>
   (\<exists>st. run_benchmarks ARRAY_SIZE srand_c rand_c (\<lambda>k. real k)
           (replicate 4194304 \<lparr>a = 0, b = 0, c = 0, d = 0, e = 0, f = 0, g = 0, h = 0\<rparr>)
           (replicate 524288 0) = Some st \<and>
         main ARRAY_SIZE srand_c rand_c (\<lambda>k. real k)
           (Some (replicate 4194304 \<lparr>a = 0, b = 0, c = 0, d = 0, e = 0, f = 0, g = 0, h = 0\<rparr>))
           (Some (replicate 524288 0))
           = Some \<lparr>exit_status = 0, written_stdout = stdout st,
                   written_stderr = [], final = Some st\<rparr>)"
proof -
  let ?ar = "replicate 4194304 \<lparr>a = 0, b = 0, c = 0, d = 0, e = 0, f = 0, g = 0, h = 0\<rparr>"
  let ?ix = "replicate 524288 (0::nat)"
  have 1: "length ?ar = ARRAY_SIZE" by (simp add: ARRAY_SIZE_def)
  have 2: "length ?ix = COUNT" by (simp add: ARRAY_SIZE_def)
  have fail: "main ARRAY_SIZE srand_c rand_c (\<lambda>k. real k) (Some ?ar) None
     = Some \<lparr>exit_status = 1, written_stdout = [],
             written_stderr = [''Memory allocation failed''], final = None\<rparr>"
    using c9_exit_status [where malloc_arr = "Some ?ar" and malloc_indices = None
        and srand = srand_c and rand = rand_c and now = "\<lambda>k. real k", THEN conjunct1]
    by (simp only: simp_thms)
  have ok: "\<exists>st. run_benchmarks ARRAY_SIZE srand_c rand_c (\<lambda>k. real k) ?ar ?ix = Some st \<and>
         main ARRAY_SIZE srand_c rand_c (\<lambda>k. real k) (Some ?ar) (Some ?ix)
           = Some \<lparr>exit_status = 0, written_stdout = stdout st,
                   written_stderr = [], final = Some st\<rparr>"
    using c9_exit_status [where malloc_arr = "Some ?ar" and malloc_indices = "Some ?ix"
        and srand = srand_c and rand = rand_c and now = "\<lambda>k. real k", THEN conjunct2,
        rule_format, of ?ar ?ix] 1 2
    by (simp only: simp_thms)
  show ?thesis
    by (rule conjI [OF fail conjI [OF 1 conjI [OF 2 ok]]])
qed

text \<open>
  Claim C10. After its initialisation the buffer is not written again. The state at the
  end of the run holds the buffer exactly as \<^verbatim>\<open>init_array\<close> left it, and one call of
  \<^verbatim>\<open>benchmark_pattern\<close> with any of the five generators (generator, warmup passes, timed
  passes, the print) returns with \<^verbatim>\<open>arr\<close> unchanged.
\<close>

theorem c10_buffer_not_mutated:
  assumes "length ar0 = ARRAY_SIZE" and "length ix0 = COUNT"
    and "length (arr st) = ARRAY_SIZE" and "length (indices st) = COUNT"
  shows "(\<exists>ar r fin. init_array ARRAY_SIZE rand (ar0, srand 12345) = Some (ar, r) \<and>
            run_benchmarks ARRAY_SIZE srand rand now ar0 ix0 = Some fin \<and> arr fin = ar) \<and>
         (\<exists>m st'. benchmark_pattern ARRAY_SIZE now
                     (on_indices (generate_sequential_indices ARRAY_SIZE)) name st
            = Some (m, st') \<and> arr st' = arr st) \<and>
         (\<exists>m st'. benchmark_pattern ARRAY_SIZE now
                     (on_indices (generate_backward_indices ARRAY_SIZE)) name st
            = Some (m, st') \<and> arr st' = arr st) \<and>
         (\<exists>m st'. benchmark_pattern ARRAY_SIZE now
                     (on_indices (generate_interleaved_indices ARRAY_SIZE)) name st
            = Some (m, st') \<and> arr st' = arr st) \<and>
         (\<exists>m st'. benchmark_pattern ARRAY_SIZE now
                     (on_indices (generate_bouncing_indices ARRAY_SIZE)) name st
            = Some (m, st') \<and> arr st' = arr st) \<and>
         (\<exists>m st'. benchmark_pattern ARRAY_SIZE now
                     (on_indices_rng (generate_random_indices ARRAY_SIZE rand)) name st
            = Some (m, st') \<and> arr st' = arr st)"
proof -
  from run_benchmarks_result [OF assms(1,2) COUNT_even COUNT_pos COUNT_small, of rand srand now]
  have run: "\<exists>ar r fin. init_array ARRAY_SIZE rand (ar0, srand 12345) = Some (ar, r) \<and>
            run_benchmarks ARRAY_SIZE srand rand now ar0 ix0 = Some fin \<and> arr fin = ar"
    by blast
  note each = benchmark_keeps_arr [OF assms(3,4) COUNT_even COUNT_pos COUNT_small]
  show ?thesis
    by (intro conjI) (rule run each)+
qed

text \<open>
  The same at a concrete buffer and index array, for the Random generator.
\<close>

theorem c10_buffer_not_mutated_witness:
  "length (replicate 4194304 \<lparr>a = 1, b = 2, c = 3, d = 4, e = 5, f = 6, g = 7, h = 8\<rparr>) = ARRAY_SIZE \<and>
   length (replicate 524288 (0::nat)) = COUNT \<and>
   (\<exists>ar r fin.
      init_array ARRAY_SIZE rand_c
        (replicate 4194304 \<lparr>a = 1, b = 2, c = 3, d = 4, e = 5, f = 6, g = 7, h = 8\<rparr>,
         srand_c 12345) = Some (ar, r) \<and>
      run_benchmarks ARRAY_SIZE srand_c rand_c (\<lambda>k. real k)
        (replicate 4194304 \<lparr>a = 1, b = 2, c = 3, d = 4, e = 5, f = 6, g = 7, h = 8\<rparr>)
        (replicate 524288 0) = Some fin \<and>
      arr fin = ar) \<and>
   (\<exists>m st'.
      benchmark_pattern ARRAY_SIZE (\<lambda>k. real k)
        (on_indices_rng (generate_random_indices ARRAY_SIZE rand_c)) ''Random''
        \<lparr>arr = replicate 4194304 \<lparr>a = 1, b = 2, c = 3, d = 4, e = 5, f = 6, g = 7, h = 8\<rparr>,
         indices = replicate 524288 0, rng = srand_c 42, ticks = 0, stdout = []\<rparr>
        = Some (m, st') \<and>
      arr st' = replicate 4194304 \<lparr>a = 1, b = 2, c = 3, d = 4, e = 5, f = 6, g = 7, h = 8\<rparr>)"
proof -
  let ?ar = "replicate 4194304 \<lparr>a = 1, b = 2, c = 3, d = 4, e = 5, f = 6, g = 7, h = 8\<rparr>"
  let ?ix = "replicate 524288 (0::nat)"
  let ?st = "\<lparr>arr = ?ar, indices = ?ix, rng = srand_c 42, ticks = 0, stdout = []\<rparr>"
  have 1: "length ?ar = ARRAY_SIZE" by (simp add: ARRAY_SIZE_def)
  have 2: "length ?ix = COUNT" by (simp add: ARRAY_SIZE_def)
  have 3: "length (arr ?st) = ARRAY_SIZE" by (simp add: ARRAY_SIZE_def)
  have 4: "length (indices ?st) = COUNT" by (simp add: ARRAY_SIZE_def)
  note w = c10_buffer_not_mutated [where ?ar0.0 = ?ar and ?ix0.0 = ?ix and st = ?st
      and rand = rand_c and srand = srand_c and now = "\<lambda>k. real k" and name = "''Random''",
      OF 1 2 3 4]
  have 5: "arr ?st = ?ar" by simp
  from w have run: "\<exists>ar r fin.
      init_array ARRAY_SIZE rand_c (?ar, srand_c 12345) = Some (ar, r) \<and>
      run_benchmarks ARRAY_SIZE srand_c rand_c (\<lambda>k. real k) ?ar ?ix = Some fin \<and>
      arr fin = ar"
    by (rule conjunct1)
  from w have "\<exists>m st'.
      benchmark_pattern ARRAY_SIZE (\<lambda>k. real k)
        (on_indices_rng (generate_random_indices ARRAY_SIZE rand_c)) ''Random'' ?st
        = Some (m, st') \<and> arr st' = arr ?st"
    by (elim conjE)
  then have one: "\<exists>m st'.
      benchmark_pattern ARRAY_SIZE (\<lambda>k. real k)
        (on_indices_rng (generate_random_indices ARRAY_SIZE rand_c)) ''Random'' ?st
        = Some (m, st') \<and> arr st' = ?ar"
    by (simp only: 5)
  show ?thesis
    by (rule conjI [OF 1 conjI [OF 2 conjI [OF run one]]])
qed

section \<open>The timer\<close>

text \<open>
  Claim C4 asks for a timestamp that never decreases and that calendar time adjustments
  do not reach. The Windows branch reads the performance counter, and \<open>get_time_win32_mono\<close>
  shows it monotone in the counter. The other branch returns what \<^verbatim>\<open>gettimeofday\<close> reports,
  the calendar clock: when that clock is set back by half a second between two calls, the
  later call returns the smaller value.
\<close>

theorem c4_get_time_follows_calendar_clock:
  "get_time \<lparr>tv_sec = 1700000000, tv_usec = 0\<rparr> = 1700000000 \<and>
   get_time \<lparr>tv_sec = 1699999999, tv_usec = 500000\<rparr> = 1699999999.5 \<and>
   get_time \<lparr>tv_sec = 1699999999, tv_usec = 500000\<rparr>
     < get_time \<lparr>tv_sec = 1700000000, tv_usec = 0\<rparr>"
  by (simp add: get_time_def)

end
